theory Spec2Isabelle
  imports Complex_Main "HOL-Library.Signed_Division" "HOL-Library.Sublist" "HOL-Library.Multiset"
    "HOL-Library.Option_ord" "HOL-Library.Log_Nat"
begin

section \<open>Pagination policy\<close>

text \<open>
  \<^verbatim>\<open>calcHasMorePages\<close> of \<^verbatim>\<open>src/utils/graphql/pagination.graphql.ts\<close>. The arguments are
  JavaScript numbers, that is binary64 values; the model takes the integer ones, as
  \<^typ>\<open>int\<close>, and rounds every result that binary64 rounds.

  \<open>round64 x\<close> is the binary64 value nearest to the rational \<open>x\<close>, ties going to the
  even significand: with \<open>ilog2 x\<close> the exponent of the leading bit, the significand
  keeps 53 bits, on the grid of \<open>2 ^ (ilog2 x - 52)\<close> and not finer than \<open>2 ^ (- 1074)\<close>.
  Overflow cannot arise: a quotient by an integer other than zero is not larger than the
  dividend, and adding one to the largest finite value rounds back to it.

  \<^verbatim>\<open>a / b\<close> is the rounded quotient, \<^verbatim>\<open>Math.floor\<close> is exact, \<^verbatim>\<open>a % b\<close> is the exact
  truncating remainder \<open>a smod b\<close>, \<^verbatim>\<open>totalPages++\<close> and \<^verbatim>\<open>+ 1\<close> are rounded sums. For
  \<open>limit = 0\<close> the quotients are \<open>\<plusminus>Infinity\<close> or \<open>NaN\<close>, the remainder is \<open>NaN\<close>, and the
  final comparison is true only for \<open>-Infinity < Infinity\<close>, that is for a negative offset
  and a positive total.
\<close>

definition roundHalfEven :: "rat \<Rightarrow> int" where
  "roundHalfEven y =
     (let f = \<lfloor>y\<rfloor>; d = y - of_int f
      in if d < 1 / 2 then f else if 1 / 2 < d then f + 1 else if even f then f else f + 1)"

definition ilog2 :: "rat \<Rightarrow> int" where
  "ilog2 x =
     (case quotient_of x of (p, q) \<Rightarrow>
        let k = bitlen p - bitlen q in if x < power_int 2 k then k - 1 else k)"

definition round64 :: "rat \<Rightarrow> rat" where
  "round64 x =
     (if x = 0 then 0
      else let e = max (ilog2 \<bar>x\<bar> - 52) (- 1074)
           in of_int (roundHalfEven (x / power_int 2 e)) * power_int 2 e)"

definition calcHasMorePages :: "int \<Rightarrow> int \<Rightarrow> int \<Rightarrow> bool" where
  "calcHasMorePages totalCount limit offset =
     (if limit = 0 then offset < 0 \<and> 0 < totalCount
      else
        let totalPages0 = of_int \<lfloor>round64 (of_int totalCount / of_int limit)\<rfloor>;
            totalPages = (if totalCount smod limit \<noteq> 0 then round64 (totalPages0 + 1) else totalPages0);
            currentPage = round64 (of_int \<lfloor>round64 (of_int offset / of_int limit)\<rfloor> + 1)
        in currentPage < totalPages)"


section \<open>Field-projection deriver\<close>

text \<open>
  \<^verbatim>\<open>getAllNestedKeys\<close> and \<^verbatim>\<open>getFlattenFields\<close> of \<^verbatim>\<open>src/utils/resolvers/utils.resolvers.ts\<close>.
  The record \<open>nestedFields\<close> is a list of keys with their subtrees in insertion order;
  the loops over its keys are the functions on that list. \<open>split_on\<close> is \<^verbatim>\<open>split\<close> with a
  one-character separator, \<open>prefix\<close> and \<open>suffix\<close> are \<^verbatim>\<open>startsWith\<close> and \<^verbatim>\<open>endsWith\<close>.
  The recursive call of \<^verbatim>\<open>getFlattenFields\<close> leaves the root replacement at its default,
  the empty string.
\<close>

datatype GraphQLMappedFields =
  MappedFields (flatFields: "string list") (nestedFields: "(string \<times> GraphQLMappedFields) list")

fun getAllNestedKeys :: "GraphQLMappedFields \<Rightarrow> string \<Rightarrow> string list"
  and nestedKeysLoop :: "(string \<times> GraphQLMappedFields) list \<Rightarrow> string \<Rightarrow> string list" where
  "getAllNestedKeys (MappedFields ff nf) pfx =
     nestedKeysLoop nf pfx @ map (\<lambda>key. pfx @ key) (map fst nf)"
| "nestedKeysLoop [] pfx = []"
| "nestedKeysLoop ((key, nestedField) # rest) pfx =
     getAllNestedKeys nestedField (pfx @ key @ ''.'') @ nestedKeysLoop rest pfx"

fun split_on :: "char \<Rightarrow> string \<Rightarrow> string list" where
  "split_on c [] = [[]]"
| "split_on c (x # xs) =
     (if x = c then [] # split_on c xs
      else (case split_on c xs of w # ws \<Rightarrow> (x # w) # ws | [] \<Rightarrow> [[x]]))"

definition flattenField :: "string \<Rightarrow> string \<Rightarrow> string \<Rightarrow> string" where
  "flattenField pfx rootIdFieldReplacement field =
     (let parts = split_on (CHR ''.'') pfx in
      if length parts > 1 then
        (let currentKey = parts ! (length parts - 2) in
         if prefix currentKey field \<and> suffix ''Id'' field then pfx @ ''id'' else pfx @ field)
      else if field = rootIdFieldReplacement then ''id'' else pfx @ field)"

fun getFlattenFields :: "GraphQLMappedFields \<Rightarrow> string \<Rightarrow> string \<Rightarrow> string list"
  and flattenNestedLoop :: "(string \<times> GraphQLMappedFields) list \<Rightarrow> string \<Rightarrow> string list" where
  "getFlattenFields (MappedFields ff nf) pfx rootIdFieldReplacement =
     map (flattenField pfx rootIdFieldReplacement) ff @ flattenNestedLoop nf pfx"
| "flattenNestedLoop [] pfx = []"
| "flattenNestedLoop ((key, nestedField) # rest) pfx =
     getFlattenFields nestedField (pfx @ key @ ''.'') '''' @ flattenNestedLoop rest pfx"


section \<open>Entities and request objects\<close>

text \<open>
  The entities and input objects of \<^verbatim>\<open>src/entities/note.entity.ts\<close> and
  \<^verbatim>\<open>src/utils/graphql\<close>. Identities, dates (milliseconds) and display orders are integers;
  a note holds the ids of its source and language and the tags reached through its
  \<^verbatim>\<open>NoteTag\<close> associations. An entry of \<open>items\<close> is \<open>None\<close> where the JavaScript array
  holds \<^verbatim>\<open>undefined\<close>. An optional field of an input object is an option. The storage
  layer reads the directions \<^verbatim>\<open>Sort.asc\<close> and \<^verbatim>\<open>QueryOrder.ASC\<close> alike, so both are
  \<open>asc\<close>.
\<close>

record Tag =
  tag_id :: int
  displayOrder :: int

record Note =
  note_id :: int
  internalId :: string
  title :: string
  body :: string
  source :: int
  language :: int
  tags :: "Tag list"
  date :: int

record NotesPaginated =
  items :: "Note option list"
  totalCount :: int
  hasNextPage :: bool

record SearchNotesInput =
  fromDate :: int
  toDate :: int
  sourceIds :: "int list option"
  languageIds :: "int list option"
  tagIds :: "int list option"
  searchPhrase :: "string option"

record PaginationInput =
  limit :: int
  offset :: int

datatype Sort = asc | desc

datatype NoteSortField = field_date | field_languageId | field_sourceId

record NoteSortInput =
  field :: NoteSortField
  sort_dir :: Sort

datatype error = StorageError string | TypeError


section \<open>Queries handed to the storage layer\<close>

text \<open>
  What the resolver hands to the storage layer, as data. A filter object is a list of
  keys with their conditions in insertion order. A query-builder query records the
  selection, the joins, the ordering, the filter and the page; a knex query records the
  query builder it was cloned from, the projection put on it, the join with the text
  index, the raw match clause and the page. The storage answers a statement with rows or
  with an error; a statement that was issued is appended to the list returned beside the
  result.
\<close>

datatype qb_cond = OpGteLte int int | OpIn "int list" | OpNested string qb_cond

type_synonym QBFilterQuery = "(string \<times> qb_cond) list"

datatype QBQueryOrderMap =
    OrderDate Sort
  | OrderLanguageId Sort
  | OrderSourceId Sort
  | OrderTagDisplayOrder Sort

record qb_query =
  qb_select :: "string list"
  qb_joins :: "(string \<times> string) list"
  qb_orderBy :: "QBQueryOrderMap list"
  qb_where :: "QBFilterQuery option"
  qb_offset :: "int option"
  qb_limit :: "int option"

datatype knex_projection = CountDistinct string | SelectColumns "string list"

record knex_query =
  kq_from :: qb_query
  kq_projection :: knex_projection
  kq_innerJoin :: "string \<times> string \<times> string \<times> string"
  kq_whereRaw :: string
  kq_offset :: "int option"
  kq_limit :: "int option"

datatype statement = Execute knex_query | GetResult qb_query | GetResultAndCount qb_query

record storage =
  execute :: "knex_query \<Rightarrow> error + int list"
  getResult :: "qb_query \<Rightarrow> error + Note list"
  getResultAndCount :: "qb_query \<Rightarrow> error + Note list \<times> int"


section \<open>Search orchestrator\<close>

text \<open>
  \<^verbatim>\<open>searchNotes\<close>, \<^verbatim>\<open>fetchNoteIdsBySearchPhrase\<close> and \<^verbatim>\<open>extractNoteFields\<close> of the note
  resolver. \<open>objSet\<close> is the object spread with one more key. The template literal of the
  match clause is the concatenation written out in \<open>matchClause\<close> (\<open>CHR 0x27\<close> is the
  single quote, \<open>CHR 0x22\<close> the double quote). Reading \<^verbatim>\<open>[0].count\<close> of an empty result
  is a \<open>TypeError\<close>, raised before the id statement is issued; an error of the storage
  ends the call.
\<close>

definition objSet :: "('k \<times> 'v) list \<Rightarrow> 'k \<Rightarrow> 'v \<Rightarrow> ('k \<times> 'v) list" where
  "objSet obj key v =
     (if key \<in> fst ` set obj then map (\<lambda>(k, w). if k = key then (k, v) else (k, w)) obj
      else obj @ [(key, v)])"

definition buildFilters :: "SearchNotesInput \<Rightarrow> QBFilterQuery" where
  "buildFilters input =
     (let filters = [(''date'', OpGteLte (fromDate input) (toDate input))];
          filters = (case sourceIds input of None \<Rightarrow> filters
                     | Some ids \<Rightarrow> objSet filters ''source'' (OpIn ids));
          filters = (case languageIds input of None \<Rightarrow> filters
                     | Some ids \<Rightarrow> objSet filters ''language'' (OpIn ids));
          filters = (case tagIds input of None \<Rightarrow> filters
                     | Some ids \<Rightarrow> objSet filters ''tags'' (OpNested ''tag'' (OpNested ''id'' (OpIn ids))))
      in filters)"

definition lookupNested :: "GraphQLMappedFields \<Rightarrow> string \<Rightarrow> GraphQLMappedFields option" where
  "lookupNested mappedFields key = map_of (nestedFields mappedFields) key"

definition itemsRequest :: "GraphQLMappedFields \<Rightarrow> string \<Rightarrow> bool" where
  "itemsRequest mappedFields relation =
     (case lookupNested mappedFields ''items'' of
        None \<Rightarrow> False
      | Some its \<Rightarrow> lookupNested its relation \<noteq> None)"

definition extractNoteFields :: "GraphQLMappedFields \<Rightarrow> string list" where
  "extractNoteFields mappedFields =
     map (\<lambda>fld. if fld = ''noteId'' then ''id'' else fld) (flatFields mappedFields)"

fun sorterOf :: "NoteSortInput \<Rightarrow> QBQueryOrderMap" where
  "sorterOf v =
     (case field v of
        field_date \<Rightarrow> OrderDate (sort_dir v)
      | field_languageId \<Rightarrow> OrderLanguageId (sort_dir v)
      | field_sourceId \<Rightarrow> OrderSourceId (sort_dir v))"

definition buildSorters :: "NoteSortInput list option \<Rightarrow> GraphQLMappedFields \<Rightarrow> QBQueryOrderMap list" where
  "buildSorters sortInput mappedFields =
     (case sortInput of
        Some sorts \<Rightarrow> map sorterOf sorts
      | None \<Rightarrow>
          [OrderDate asc]
          @ (if itemsRequest mappedFields ''tags'' then [OrderTagDisplayOrder asc] else []))"

definition createQueryBuilder :: qb_query where
  "createQueryBuilder =
     \<lparr>qb_select = [], qb_joins = [], qb_orderBy = [], qb_where = None,
      qb_offset = None, qb_limit = None\<rparr>"

definition leftJoinAndSelect :: "string \<Rightarrow> string \<Rightarrow> qb_query \<Rightarrow> qb_query" where
  "leftJoinAndSelect path als qb = qb\<lparr>qb_joins := qb_joins qb @ [(path, als)]\<rparr>"

definition noteQueryBuilder :: "GraphQLMappedFields \<Rightarrow> QBQueryOrderMap list \<Rightarrow> qb_query" where
  "noteQueryBuilder mappedFields sorters =
     (let fields = (case lookupNested mappedFields ''items'' of
                      None \<Rightarrow> []
                    | Some its \<Rightarrow> extractNoteFields its);
          qb = createQueryBuilder\<lparr>qb_select := fields\<rparr>;
          qb = (if itemsRequest mappedFields ''source''
                then leftJoinAndSelect ''note.source'' ''source'' qb else qb);
          qb = (if itemsRequest mappedFields ''language''
                then leftJoinAndSelect ''note.language'' ''language'' qb else qb);
          qb = (if itemsRequest mappedFields ''tags''
                then leftJoinAndSelect ''note_tag.tag'' ''tag''
                       (leftJoinAndSelect ''note.tags'' ''note_tag'' qb)
                else qb)
      in qb\<lparr>qb_orderBy := sorters\<rparr>)"

definition matchClause :: "string \<Rightarrow> string" where
  "matchClause phrase =
     ''note_fts5_index MATCH '' @ [CHR 0x27] @ ''title:'' @ [CHR 0x22] @ phrase @ [CHR 0x22]
       @ '' * OR body:'' @ [CHR 0x22] @ phrase @ [CHR 0x22] @ '' * '' @ [CHR 0x27]"

definition innerQb :: "QBFilterQuery \<Rightarrow> QBQueryOrderMap list \<Rightarrow> qb_query" where
  "innerQb filters sorters =
     createQueryBuilder\<lparr>qb_where := Some filters, qb_orderBy := sorters\<rparr>"

definition knexCountQuery :: "string \<Rightarrow> QBFilterQuery \<Rightarrow> QBQueryOrderMap list \<Rightarrow> knex_query" where
  "knexCountQuery phrase filters sorters =
     \<lparr>kq_from = innerQb filters sorters,
      kq_projection = CountDistinct ''note_id'',
      kq_innerJoin = (''note_fts5_index as fts_idx'', ''fts_idx.rowid'', ''='', ''note.note_id''),
      kq_whereRaw = matchClause phrase,
      kq_offset = None, kq_limit = None\<rparr>"

definition knexSelectQuery ::
  "string \<Rightarrow> QBFilterQuery \<Rightarrow> QBQueryOrderMap list \<Rightarrow> PaginationInput \<Rightarrow> knex_query" where
  "knexSelectQuery phrase filters sorters pagination =
     \<lparr>kq_from = innerQb filters sorters,
      kq_projection = SelectColumns [''note_id''],
      kq_innerJoin = (''note_fts5_index as fts_idx'', ''fts_idx.rowid'', ''='', ''note.note_id''),
      kq_whereRaw = matchClause phrase,
      kq_offset = Some (offset pagination), kq_limit = Some (limit pagination)\<rparr>"

definition fetchNoteIdsBySearchPhrase ::
  "storage \<Rightarrow> string \<Rightarrow> QBFilterQuery \<Rightarrow> QBQueryOrderMap list \<Rightarrow> PaginationInput
     \<Rightarrow> (error + int \<times> int list \<times> bool) \<times> statement list" where
  "fetchNoteIdsBySearchPhrase st phrase filters sorters pagination =
     (let countQ = knexCountQuery phrase filters sorters;
          selectQ = knexSelectQuery phrase filters sorters pagination
      in case execute st countQ of
           Inl e \<Rightarrow> (Inl e, [Execute countQ])
         | Inr [] \<Rightarrow> (Inl TypeError, [Execute countQ])
         | Inr (totalMatch # _) \<Rightarrow>
             (case execute st selectQ of
                Inl e \<Rightarrow> (Inl e, [Execute countQ, Execute selectQ])
              | Inr idsList \<Rightarrow>
                  (Inr (totalMatch, idsList,
                        calcHasMorePages totalMatch (limit pagination) (offset pagination)),
                   [Execute countQ, Execute selectQ])))"

definition noteMapOf :: "Note list \<Rightarrow> (int \<rightharpoonup> Note)" where
  "noteMapOf notes = foldl (\<lambda>m n. m(note_id n \<mapsto> n)) Map.empty notes"

definition byIdsQuery :: "qb_query \<Rightarrow> int list \<Rightarrow> qb_query" where
  "byIdsQuery qb ids = qb\<lparr>qb_where := Some [(''id'', OpIn ids)]\<rparr>"

definition pageQuery :: "qb_query \<Rightarrow> QBFilterQuery \<Rightarrow> PaginationInput \<Rightarrow> qb_query" where
  "pageQuery qb filters pagination =
     qb\<lparr>qb_where := Some filters, qb_offset := Some (offset pagination),
        qb_limit := Some (limit pagination)\<rparr>"

definition searchNotes ::
  "storage \<Rightarrow> GraphQLMappedFields \<Rightarrow> SearchNotesInput \<Rightarrow> PaginationInput
     \<Rightarrow> NoteSortInput list option \<Rightarrow> (error + NotesPaginated) \<times> statement list" where
  "searchNotes st mappedFields input pagination sortInput =
     (let filters = buildFilters input;
          sorters = buildSorters sortInput mappedFields;
          qb = noteQueryBuilder mappedFields sorters
      in case searchPhrase input of
           Some phrase \<Rightarrow>
             (case fetchNoteIdsBySearchPhrase st phrase filters sorters pagination of
                (Inl e, issued) \<Rightarrow> (Inl e, issued)
              | (Inr (totalMatch, ids, hasMorePages), issued) \<Rightarrow>
                  (case getResult st (byIdsQuery qb ids) of
                     Inl e \<Rightarrow> (Inl e, issued @ [GetResult (byIdsQuery qb ids)])
                   | Inr notes \<Rightarrow>
                       (Inr \<lparr>items = map (noteMapOf notes) ids, totalCount = totalMatch,
                             hasNextPage = hasMorePages\<rparr>,
                        issued @ [GetResult (byIdsQuery qb ids)])))
         | None \<Rightarrow>
             (case getResultAndCount st (pageQuery qb filters pagination) of
                Inl e \<Rightarrow> (Inl e, [GetResultAndCount (pageQuery qb filters pagination)])
              | Inr (notes, totalMatch) \<Rightarrow>
                  (Inr \<lparr>items = map Some notes, totalCount = totalMatch,
                        hasNextPage = calcHasMorePages totalMatch (limit pagination) (offset pagination)\<rparr>,
                   [GetResultAndCount (pageQuery qb filters pagination)])))"


section \<open>Reference notions for the field-projection deriver\<close>

text \<open>
  The rewriting of a leaf stated on the path of enclosing keys (\<open>rewrittenLeaf\<close>,
  \<open>projectedFields\<close>), the paths of a tree in preorder (\<open>allPaths\<close>), the pairs of a
  child path and its parent path, and \<open>precedes x y xs\<close>: some occurrence of \<open>x\<close> lies
  before an occurrence of \<open>y\<close> in \<open>xs\<close>.
\<close>

fun dotFreeKeys :: "GraphQLMappedFields \<Rightarrow> bool"
  and dotFreeKeysList :: "(string \<times> GraphQLMappedFields) list \<Rightarrow> bool" where
  "dotFreeKeys (MappedFields ff nf) = dotFreeKeysList nf"
| "dotFreeKeysList [] = True"
| "dotFreeKeysList ((key, nestedField) # rest) =
     (CHR ''.'' \<notin> set key \<and> dotFreeKeys nestedField \<and> dotFreeKeysList rest)"

definition dotted :: "string list \<Rightarrow> string" where
  "dotted path = concat (map (\<lambda>key. key @ ''.'') path)"

definition rewrittenLeaf :: "string list \<Rightarrow> string \<Rightarrow> string \<Rightarrow> string" where
  "rewrittenLeaf path rootId leaf =
     (if path = [] then (if leaf = rootId then ''id'' else leaf)
      else if prefix (last path) leaf \<and> suffix ''Id'' leaf then dotted path @ ''id''
      else dotted path @ leaf)"

fun projectedFields :: "string list \<Rightarrow> string \<Rightarrow> GraphQLMappedFields \<Rightarrow> string list"
  and projectedNested :: "string list \<Rightarrow> string \<Rightarrow> (string \<times> GraphQLMappedFields) list \<Rightarrow> string list" where
  "projectedFields path rootId (MappedFields ff nf) =
     map (rewrittenLeaf path rootId) ff @ projectedNested path rootId nf"
| "projectedNested path rootId [] = []"
| "projectedNested path rootId ((key, nestedField) # rest) =
     projectedFields (path @ [key]) rootId nestedField @ projectedNested path rootId rest"

fun precedes :: "'a \<Rightarrow> 'a \<Rightarrow> 'a list \<Rightarrow> bool" where
  "precedes x y [] = False"
| "precedes x y (z # zs) = ((z = x \<and> y \<in> set zs) \<or> precedes x y zs)"

fun allPaths :: "GraphQLMappedFields \<Rightarrow> string \<Rightarrow> string list"
  and allPathsList :: "(string \<times> GraphQLMappedFields) list \<Rightarrow> string \<Rightarrow> string list" where
  "allPaths (MappedFields ff nf) pfx = allPathsList nf pfx"
| "allPathsList [] pfx = []"
| "allPathsList ((key, nestedField) # rest) pfx =
     (pfx @ key) # allPaths nestedField (pfx @ key @ ''.'') @ allPathsList rest pfx"

fun childParentPairs :: "GraphQLMappedFields \<Rightarrow> string \<Rightarrow> (string \<times> string) list"
  and childParentPairsList :: "(string \<times> GraphQLMappedFields) list \<Rightarrow> string \<Rightarrow> (string \<times> string) list" where
  "childParentPairs (MappedFields ff nf) pfx = childParentPairsList nf pfx"
| "childParentPairsList [] pfx = []"
| "childParentPairsList ((key, nestedField) # rest) pfx =
     map (\<lambda>child. (pfx @ key @ ''.'' @ child, pfx @ key)) (map fst (nestedFields nestedField))
     @ childParentPairs nestedField (pfx @ key @ ''.'')
     @ childParentPairsList rest pfx"

fun deeperPaths :: "(string \<times> GraphQLMappedFields) list \<Rightarrow> string \<Rightarrow> string list" where
  "deeperPaths [] pfx = []"
| "deeperPaths ((key, nestedField) # rest) pfx =
     allPaths nestedField (pfx @ key @ ''.'') @ deeperPaths rest pfx"


section \<open>Reference reading of the queries\<close>

text \<open>
  A reference reading of the statements over a list of notes, following SQL: the rows of
  a note joined with its tags are one row per tag, or one row without a tag (left join);
  the filter is read row by row; ORDER BY is lexicographic over the terms, a missing value
  first in ascending order, ties keeping the order of the store; OFFSET and LIMIT cut the
  ordered rows. The entities of a row query are the distinct notes of the rows in the
  order of their first row; where the tags relation is joined and selected, the nested
  tag list of an entity is read from its rows, in the order of the rows
  (\<open>hydrate\<close>). The text match is a parameter. \<open>noteSatisfies\<close> says that some joined
  row of the note passes the filter.
\<close>

type_synonym row = "Note \<times> Tag option"

definition joinRows :: "bool \<Rightarrow> Note list \<Rightarrow> row list" where
  "joinRows withTags db =
     (if withTags
      then concat (map (\<lambda>n. if tags n = [] then [(n, None)]
                              else map (\<lambda>t. (n, Some t)) (tags n)) db)
      else map (\<lambda>n. (n, None)) db)"

fun condHolds :: "row \<Rightarrow> string \<times> qb_cond \<Rightarrow> bool" where
  "condHolds (n, t) (key, OpGteLte lo hi) = (key = ''date'' \<and> lo \<le> date n \<and> date n \<le> hi)"
| "condHolds (n, t) (key, OpIn ids) =
     ((key = ''source'' \<and> source n \<in> set ids)
      \<or> (key = ''language'' \<and> language n \<in> set ids)
      \<or> (key = ''id'' \<and> note_id n \<in> set ids))"
| "condHolds (n, t) (key, OpNested k1 (OpNested k2 (OpIn ids))) =
     (key = ''tags'' \<and> k1 = ''tag'' \<and> k2 = ''id''
      \<and> (case t of None \<Rightarrow> False | Some tg \<Rightarrow> tag_id tg \<in> set ids))"
| "condHolds (n, t) (key, OpNested k1 c) = False"

definition rowMatches :: "QBFilterQuery \<Rightarrow> row \<Rightarrow> bool" where
  "rowMatches filters r = list_all (condHolds r) filters"

definition noteSatisfies :: "QBFilterQuery \<Rightarrow> Note \<Rightarrow> bool" where
  "noteSatisfies filters n = list_ex (rowMatches filters) (joinRows True [n])"

fun orderKey :: "QBQueryOrderMap \<Rightarrow> row \<Rightarrow> int option" where
  "orderKey (OrderDate d) (n, t) = Some (date n)"
| "orderKey (OrderLanguageId d) (n, t) = Some (language n)"
| "orderKey (OrderSourceId d) (n, t) = Some (source n)"
| "orderKey (OrderTagDisplayOrder d) (n, t) = map_option displayOrder t"

fun orderDir :: "QBQueryOrderMap \<Rightarrow> Sort" where
  "orderDir (OrderDate d) = d"
| "orderDir (OrderLanguageId d) = d"
| "orderDir (OrderSourceId d) = d"
| "orderDir (OrderTagDisplayOrder d) = d"

definition sortByTerm :: "QBQueryOrderMap \<Rightarrow> row list \<Rightarrow> row list" where
  "sortByTerm ord rows =
     (case orderDir ord of
        asc \<Rightarrow> sort_key (orderKey ord) rows
      | desc \<Rightarrow> rev (sort_key (orderKey ord) (rev rows)))"

definition orderRows :: "QBQueryOrderMap list \<Rightarrow> row list \<Rightarrow> row list" where
  "orderRows sorters rows = foldr sortByTerm sorters rows"

fun isTagOrder :: "QBQueryOrderMap \<Rightarrow> bool" where
  "isTagOrder (OrderTagDisplayOrder d) = True"
| "isTagOrder ord = False"

definition needsTagJoin :: "qb_query \<Rightarrow> bool" where
  "needsTagJoin qb =
     (list_ex isTagOrder (qb_orderBy qb)
      \<or> (''note.tags'', ''note_tag'') \<in> set (qb_joins qb)
      \<or> (case qb_where qb of None \<Rightarrow> False | Some flt \<Rightarrow> ''tags'' \<in> fst ` set flt))"

definition selectRows :: "(string \<Rightarrow> Note \<Rightarrow> bool) \<Rightarrow> Note list \<Rightarrow> qb_query \<Rightarrow> string option \<Rightarrow> row list" where
  "selectRows fts db qb raw =
     orderRows (qb_orderBy qb)
       (filter (\<lambda>r. (case qb_where qb of None \<Rightarrow> True | Some flt \<Rightarrow> rowMatches flt r)
                   \<and> (case raw of None \<Rightarrow> True | Some m \<Rightarrow> fts m (fst r)))
          (joinRows (needsTagJoin qb) db))"

definition page :: "int option \<Rightarrow> int option \<Rightarrow> 'a list \<Rightarrow> 'a list" where
  "page skip cnt xs =
     (let ys = (case skip of None \<Rightarrow> xs | Some k \<Rightarrow> drop (nat k) xs)
      in case cnt of None \<Rightarrow> ys | Some l \<Rightarrow> take (nat l) ys)"

definition tagsSelected :: "qb_query \<Rightarrow> bool" where
  "tagsSelected qb = ((''note.tags'', ''note_tag'') \<in> set (qb_joins qb))"

definition entitiesOf :: "row list \<Rightarrow> Note list" where
  "entitiesOf rows = rev (remdups (rev (map fst rows)))"

definition tagsOf :: "Note \<Rightarrow> row list \<Rightarrow> Tag list" where
  "tagsOf n rows =
     concat (map (\<lambda>r. case snd r of None \<Rightarrow> [] | Some t \<Rightarrow> [t]) (filter (\<lambda>r. fst r = n) rows))"

definition hydrate :: "qb_query \<Rightarrow> row list \<Rightarrow> Note list" where
  "hydrate qb rows =
     map (\<lambda>n. if tagsSelected qb then n\<lparr>tags := tagsOf n rows\<rparr> else n) (entitiesOf rows)"

definition sqlStorage :: "(string \<Rightarrow> Note \<Rightarrow> bool) \<Rightarrow> Note list \<Rightarrow> storage" where
  "sqlStorage fts db =
     \<lparr>execute = (\<lambda>q.
        let rows = selectRows fts db (kq_from q) (Some (kq_whereRaw q))
        in Inr (case kq_projection q of
                  CountDistinct c \<Rightarrow> [int (length (remdups (map (\<lambda>r. note_id (fst r)) rows)))]
                | SelectColumns cs \<Rightarrow>
                    map (\<lambda>r. note_id (fst r)) (page (kq_offset q) (kq_limit q) rows))),
      getResult = (\<lambda>q.
        Inr (page (qb_offset q) (qb_limit q) (hydrate q (selectRows fts db q None)))),
      getResultAndCount = (\<lambda>q.
        let ents = hydrate q (selectRows fts db q None)
        in Inr (page (qb_offset q) (qb_limit q) ents, int (length ents)))\<rparr>"

subsection \<open>Notions used to state the properties\<close>

text \<open>
  \<open>honoursLimit\<close> says that an id selection with a limit returns at most that many
  rows. \<open>orderingOf\<close> is the ordering clause a statement carries. \<open>quotedLiteral q s\<close> reads
  a quoted literal whose opening quote \<open>q\<close> was just consumed (as SQL does for \<open>'\<close> and
  the match syntax for \<open>"\<close>): a doubled quote stands for one quote, a single one ends
  the literal; the result is the value of the literal and the text left after it.
  \<open>titleOperand\<close> and \<open>matchLiteral\<close> are the parts of a match clause after the quote
  that opens the title term and after the quote that opens the SQL literal.
\<close>

definition honoursLimit :: "storage \<Rightarrow> bool" where
  "honoursLimit st =
     (\<forall>q cols l fetched. kq_projection q = SelectColumns cols \<longrightarrow> kq_limit q = Some l \<longrightarrow> 0 \<le> l
        \<longrightarrow> execute st q = Inr fetched \<longrightarrow> int (length fetched) \<le> l)"


fun quotedLiteral :: "char \<Rightarrow> string \<Rightarrow> (string \<times> string) option" where
  "quotedLiteral q [] = None"
| "quotedLiteral q [c] = (if c = q then Some ([], []) else None)"
| "quotedLiteral q (c # d # cs) =
     (if c = q
      then (if d = q then map_option (\<lambda>(v, r). (q # v, r)) (quotedLiteral q cs)
            else Some ([], d # cs))
      else map_option (\<lambda>(v, r). (c # v, r)) (quotedLiteral q (d # cs)))"

definition titleOperand :: "string \<Rightarrow> string" where
  "titleOperand clause =
     drop (length (''note_fts5_index MATCH '' @ [CHR 0x27] @ ''title:'' @ [CHR 0x22])) clause"

definition matchLiteral :: "string \<Rightarrow> string" where
  "matchLiteral clause = drop (length (''note_fts5_index MATCH '' @ [CHR 0x27])) clause"


section \<open>Example data\<close>

text \<open>
  Example data: two notes of equal date with one tag each, a note whose two tags are
  stored against their display order, a request for the tags of the items, and storages
  derived from the reference one by reversing the fetched rows or by losing the row of
  one id.
\<close>

definition mkNote :: "int \<Rightarrow> int \<Rightarrow> int \<Rightarrow> int \<Rightarrow> Tag list \<Rightarrow> Note" where
  "mkNote i d s l ts =
     \<lparr>note_id = i, internalId = ''n'', title = ''banana'', body = ''orange'',
      source = s, language = l, tags = ts, date = d\<rparr>"

definition noteA :: "int \<Rightarrow> Note" where
  "noteA k = mkNote 1 5 1 1 [\<lparr>tag_id = 10, displayOrder = k\<rparr>]"

definition noteB :: "int \<Rightarrow> Note" where
  "noteB k = mkNote 2 5 1 1 [\<lparr>tag_id = 11, displayOrder = k\<rparr>]"

definition db_ties :: "Note list" where
  "db_ties = [noteA 9, noteB 1]"


definition mf_tags :: GraphQLMappedFields where
  "mf_tags = MappedFields [''totalCount'']
     [(''items'', MappedFields [''noteId'']
         [(''tags'', MappedFields [] [(''tag'', MappedFields [''tagId''] [])])])]"

definition input_phrase :: SearchNotesInput where
  "input_phrase = \<lparr>fromDate = 0, toDate = 10, sourceIds = None, languageIds = None,
                    tagIds = None, searchPhrase = Some ''ban''\<rparr>"

definition anyMatch :: "string \<Rightarrow> Note \<Rightarrow> bool" where
  "anyMatch raw n = True"

definition reversedFetch :: "storage \<Rightarrow> storage" where
  "reversedFetch st =
     st\<lparr>getResult := (\<lambda>q. case getResult st q of Inl e \<Rightarrow> Inl e | Inr fetched \<Rightarrow> Inr (rev fetched))\<rparr>"

definition pg_ex :: PaginationInput where
  "pg_ex = \<lparr>limit = 10, offset = 0\<rparr>"

definition pg_beyond :: PaginationInput where
  "pg_beyond = \<lparr>limit = 10, offset = 10\<rparr>"

definition phrase_dq :: string where
  "phrase_dq = ''ban'' @ [CHR 0x22] @ '' OR '' @ [CHR 0x22] @ ''x''"

definition phrase_sq :: string where
  "phrase_sq = ''ban'' @ [CHR 0x27] @ '' OR 1=1 --''"

definition withoutRow :: "int \<Rightarrow> storage \<Rightarrow> storage" where
  "withoutRow i st =
     st\<lparr>getResult := (\<lambda>q. case getResult st q of Inl e \<Rightarrow> Inl e
                              | Inr fetched \<Rightarrow> Inr (filter (\<lambda>n. note_id n \<noteq> i) fetched))\<rparr>"

definition input_filters :: SearchNotesInput where
  "input_filters = \<lparr>fromDate = 0, toDate = 10, sourceIds = Some [1, 2], languageIds = None,
                     tagIds = Some [2, 3], searchPhrase = None\<rparr>"




definition fields_ex :: GraphQLMappedFields where
  "fields_ex =
     MappedFields [''noteId'', ''title'']
       [(''source'', MappedFields [''sourceId'', ''name''] []),
        (''tags'', MappedFields [] [(''tag'', MappedFields [''tagId'', ''tagName''] [])])]"

definition tree_ex :: GraphQLMappedFields where
  "tree_ex = MappedFields [] [(''a'', MappedFields [] [(''b'', MappedFields [] [])]), (''c'', MappedFields [] [(''d'', MappedFields [] [])])]"


section \<open>Properties of the pagination policy\<close>

subsection \<open>Rounding to binary64\<close>

lemma roundHalfEven_of_int: "roundHalfEven (of_int k) = k"
  by (simp add: roundHalfEven_def)

lemma roundHalfEven_upper: "of_int (roundHalfEven y) \<le> y + 1 / 2"
proof -
  have f: "of_int \<lfloor>y\<rfloor> \<le> y" by simp
  show ?thesis
  proof (cases "y - of_int \<lfloor>y\<rfloor> < 1 / 2")
    case True
    then have "roundHalfEven y = \<lfloor>y\<rfloor>" by (simp add: roundHalfEven_def Let_def)
    then show ?thesis using f by linarith
  next
    case False
    then have g: "of_int \<lfloor>y\<rfloor> + 1 \<le> y + 1 / 2" by linarith
    have "roundHalfEven y = \<lfloor>y\<rfloor> \<or> roundHalfEven y = \<lfloor>y\<rfloor> + 1"
      by (simp add: roundHalfEven_def Let_def)
    then show ?thesis
    proof
      assume "roundHalfEven y = \<lfloor>y\<rfloor>"
      then show ?thesis using f by linarith
    next
      assume "roundHalfEven y = \<lfloor>y\<rfloor> + 1"
      then show ?thesis using g by simp
    qed
  qed
qed

lemma roundHalfEven_lower: "\<lfloor>y\<rfloor> \<le> roundHalfEven y"
  by (simp add: roundHalfEven_def Let_def)

lemma roundHalfEven_nonneg: "0 \<le> y \<Longrightarrow> 0 \<le> roundHalfEven y"
proof -
  assume "0 \<le> y"
  then have "0 \<le> \<lfloor>y\<rfloor>" by simp
  then show ?thesis using roundHalfEven_lower [of y] by linarith
qed

lemma of_int_pow2: "0 \<le> k \<Longrightarrow> (of_int (2 ^ nat k) :: rat) = power_int 2 k"
  by (simp add: power_int_def)

lemma pow2_pos: "0 < power_int (2::rat) e"
  by (simp add: zero_less_power_int)

lemma pow2_add: "power_int (2::rat) (a + b) = power_int 2 a * power_int 2 b"
  by (simp add: power_int_add)

lemma pow2_diff: "power_int (2::rat) (a - b) = power_int 2 a / power_int 2 b"
  by (simp add: power_int_diff)

lemma pow2_mono: "a \<le> b \<Longrightarrow> power_int (2::rat) a \<le> power_int 2 b"
  by (rule power_int_increasing) simp_all

lemma ilog2_bounds:
  assumes "0 < x"
  shows "power_int 2 (ilog2 x) \<le> x \<and> x < power_int 2 (ilog2 x + 1)"
proof -
  obtain p q where pq: "quotient_of x = (p, q)" by (cases "quotient_of x")
  then have q: "0 < q" and x: "x = of_int p / of_int q"
    by (simp_all add: quotient_of_denom_pos quotient_of_div)
  from assms x q have p: "0 < p"
    by (simp add: zero_less_divide_iff)
  define k where "k = bitlen p - bitlen q"
  have bp: "1 \<le> bitlen p" and bq: "1 \<le> bitlen q"
    using p q by (simp_all add: bitlen_alt_def)
  from bitlen_bounds [OF p] bp
  have p_lo: "power_int 2 (bitlen p - 1) \<le> (of_int p :: rat)" and p_hi: "(of_int p :: rat) < power_int 2 (bitlen p)"
    by (simp_all flip: of_int_pow2 add: of_int_le_iff [symmetric] of_int_less_iff [symmetric] del: of_int_le_iff of_int_less_iff of_int_power)
  from bitlen_bounds [OF q] bq
  have q_lo: "power_int 2 (bitlen q - 1) \<le> (of_int q :: rat)" and q_hi: "(of_int q :: rat) < power_int 2 (bitlen q)"
    by (simp_all flip: of_int_pow2 add: of_int_le_iff [symmetric] of_int_less_iff [symmetric] del: of_int_le_iff of_int_less_iff of_int_power)
  have qpos: "(0::rat) < of_int q" using q by simp
  have hi: "x < power_int 2 (k + 1)"
  proof -
    have "x * power_int 2 (bitlen q - 1) \<le> x * of_int q"
      using q_lo assms by (intro mult_left_mono) simp_all
    also have "\<dots> = of_int p" using x qpos by simp
    also have "\<dots> < power_int 2 (bitlen p)" by (rule p_hi)
    also have "\<dots> = power_int (2::rat) (k + 1) * power_int 2 (bitlen q - 1)"
      unfolding k_def by (simp flip: pow2_add)
    finally show ?thesis using pow2_pos [of "bitlen q - 1"] by simp
  qed
  have lo: "power_int 2 (k - 1) < x"
  proof -
    have "power_int (2::rat) (k - 1) * power_int 2 (bitlen q) = power_int 2 (bitlen p - 1)"
      unfolding k_def by (simp flip: pow2_add)
    also have "\<dots> \<le> of_int p" by (rule p_lo)
    also have "\<dots> = x * of_int q" using x qpos by simp
    also have "\<dots> < x * power_int 2 (bitlen q)"
      using q_hi assms by (intro mult_strict_left_mono) simp_all
    finally show ?thesis using pow2_pos [of "bitlen q"] by simp
  qed
  have il: "ilog2 x = (if x < power_int 2 k then k - 1 else k)"
    by (simp add: ilog2_def pq k_def Let_def)
  show ?thesis
  proof (cases "x < power_int 2 k")
    case True
    then show ?thesis using lo il by simp
  next
    case False
    then show ?thesis using hi il by simp
  qed
qed

lemma pow2_nonpos: "e \<le> 0 \<Longrightarrow> power_int (2::rat) e = 1 / of_int (2 ^ nat (- e))"
  by (cases "e = 0") (simp_all add: power_int_def power_one_over inverse_eq_divide)

lemma pow2_less_imp: "power_int (2::rat) a < power_int 2 b \<Longrightarrow> a < b"
  using pow2_mono [of b a] by (cases "a < b") simp_all

lemma round64_nonneg:
  assumes "0 \<le> x"
  shows "0 \<le> round64 x"
proof (cases "x = 0")
  case True
  then show ?thesis by (simp add: round64_def)
next
  case False
  define e where "e = max (ilog2 \<bar>x\<bar> - 52) (- 1074)"
  have "0 \<le> x / power_int 2 e"
    using assms pow2_pos [of e] by simp
  then have "0 \<le> roundHalfEven (x / power_int 2 e)"
    by (rule roundHalfEven_nonneg)
  then have "0 \<le> of_int (roundHalfEven (x / power_int 2 e)) * power_int (2::rat) e"
    using pow2_pos [of e] by simp
  then show ?thesis
    using False by (simp add: round64_def e_def Let_def)
qed

lemma round64_of_int:
  assumes "0 \<le> n" and "n \<le> 2 ^ 53"
  shows "round64 (of_int n) = of_int n"
proof (cases "n = 0")
  case True
  then show ?thesis by (simp add: round64_def)
next
  case False
  define x :: rat where "x = of_int n"
  define L where "L = ilog2 x"
  define e where "e = max (L - 52) (- 1074)"
  have xpos: "0 < x" and x1: "1 \<le> x" and x53: "x \<le> 2 ^ 53"
    using assms False by (simp_all add: x_def)
  have lo: "power_int 2 L \<le> x" and hi: "x < power_int 2 (L + 1)"
    using ilog2_bounds [OF xpos] by (simp_all add: L_def)
  have "power_int (2::rat) 0 < power_int 2 (L + 1)"
    using x1 hi by simp
  then have L0: "0 \<le> L" using pow2_less_imp [of 0 "L + 1"] by simp
  have "power_int (2::rat) L < power_int 2 54"
    using lo x53 by simp
  then have L53: "L \<le> 53" using pow2_less_imp [of L 54] by simp
  have e: "e = L - 52" using L0 by (simp add: e_def)
  have r: "round64 x = of_int (roundHalfEven (x / power_int 2 e)) * power_int 2 e"
    using xpos by (simp add: round64_def e_def L_def Let_def)
  show ?thesis
  proof (cases "e \<le> 0")
    case True
    have "x / power_int 2 e = of_int (n * 2 ^ nat (- e))"
      by (simp add: pow2_nonpos [OF True] x_def)
    then have "roundHalfEven (x / power_int 2 e) = n * 2 ^ nat (- e)"
      by (simp only: roundHalfEven_of_int)
    then have "round64 x = of_int (n * 2 ^ nat (- e)) * power_int 2 e"
      using r by simp
    also have "\<dots> = x"
      by (simp add: pow2_nonpos [OF True] x_def)
    finally show ?thesis by (simp add: x_def)
  next
    case False
    then have e1: "e = 1" and "L = 53" using e L53 by simp_all
    then have "(2::rat) ^ 53 \<le> x" using lo by simp
    then have xv: "x = 2 ^ 53" using x53 by simp
    have "x / power_int 2 e = of_int (2 ^ 52)"
      by (simp add: xv e1)
    then have "roundHalfEven (x / power_int 2 e) = 2 ^ 52"
      by (simp only: roundHalfEven_of_int)
    then have "round64 x = x"
      using r by (simp add: e1 xv)
    then show ?thesis by (simp add: x_def)
  qed
qed

lemma floor_round64_quotient:
  assumes a0: "0 \<le> a" and a53: "a < 2 ^ 53" and b1: "1 \<le> b"
  shows "\<lfloor>round64 (of_int a / of_int b)\<rfloor> = a div b"
proof (cases "a = 0")
  case True
  then show ?thesis by (simp add: round64_def)
next
  case False
  define x :: rat where "x = of_int a / of_int b"
  define n where "n = a div b"
  define L where "L = ilog2 x"
  define e where "e = max (L - 52) (- 1074)"
  define m where "m = roundHalfEven (x / power_int 2 e)"
  define K :: int where "K = 2 ^ nat (- e)"
  have bpos: "(0::rat) < of_int b" using b1 by simp
  have apos: "(0::rat) < of_int a" using a0 False by simp
  have xpos: "0 < x" using apos bpos by (simp add: x_def)
  have fl: "\<lfloor>x\<rfloor> = n"
    unfolding x_def n_def by (rule floor_divide_of_int_eq)
  have n_le: "of_int n \<le> x" using fl of_int_floor_le [of x] by simp
  have xa: "x \<le> of_int a"
  proof -
    have "of_int a / of_int b \<le> (of_int a :: rat) / 1"
      using apos b1 by (intro divide_left_mono) simp_all
    then show ?thesis by (simp add: x_def)
  qed
  have x53: "x < 2 ^ 53"
  proof -
    have "(of_int a :: rat) < 2 ^ 53" using a53 by simp
    then show ?thesis using xa by linarith
  qed
  have lo: "power_int 2 L \<le> x" and hi: "x < power_int 2 (L + 1)"
    using ilog2_bounds [OF xpos] by (simp_all add: L_def)
  have "power_int (2::rat) L < power_int 2 53"
    using lo x53 by simp
  then have L52: "L \<le> 52" using pow2_less_imp [of L 53] by simp
  then have e0: "e \<le> 0" by (simp add: e_def)
  have r: "round64 x = of_int m * power_int 2 e"
    using xpos by (simp add: round64_def e_def L_def m_def Let_def)
  have Kpos: "0 < K" by (simp add: K_def)
  have pe: "power_int (2::rat) e = 1 / of_int K"
    unfolding K_def by (rule pow2_nonpos [OF e0])
  have lower: "of_int n \<le> round64 x"
  proof -
    have "of_int (n * K) \<le> x * of_int K"
      using n_le Kpos by (simp add: mult_right_mono)
    then have "n * K \<le> \<lfloor>x * of_int K\<rfloor>"
      by (simp add: le_floor_iff)
    also have "\<dots> \<le> m"
      unfolding m_def pe using roundHalfEven_lower [of "x * of_int K"] by simp
    finally have "(of_int (n * K) :: rat) \<le> of_int m"
      by (simp only: of_int_le_iff)
    then have "of_int n * of_int K \<le> (of_int m :: rat)" by simp
    then have "of_int n \<le> (of_int m :: rat) / of_int K"
      using Kpos by (simp add: pos_le_divide_eq)
    then show ?thesis by (simp add: r pe)
  qed
  have near: "round64 x \<le> x + power_int 2 e / 2"
  proof -
    have "of_int m \<le> x / power_int 2 e + 1 / 2"
      unfolding m_def by (rule roundHalfEven_upper)
    then have "of_int m * power_int 2 e \<le> (x / power_int 2 e + 1 / 2) * power_int 2 e"
      using pow2_pos [of e] by (intro mult_right_mono) simp_all
    also have "\<dots> = x + power_int 2 e / 2"
      using pow2_pos [of e] by (simp add: field_simps)
    finally show ?thesis by (simp add: r)
  qed
  have upper: "round64 x < of_int n + 1"
  proof (cases "- 1074 \<le> L - 52")
    case True
    then have e: "e = L - 52" by (simp add: e_def)
    have "power_int (2::rat) e = power_int 2 L / 2 ^ 52"
      unfolding e by (simp add: pow2_diff)
    also have "\<dots> \<le> x / 2 ^ 52"
      using lo by (simp add: divide_right_mono)
    finally have "round64 x \<le> x + x / 2 ^ 53"
      using near by simp
    show ?thesis
    proof (rule ccontr)
      assume "\<not> round64 x < of_int n + 1"
      then have "of_int n + 1 \<le> x + x / 2 ^ 53"
        using \<open>round64 x \<le> x + x / 2 ^ 53\<close> by linarith
      then have "(of_int n + 1) * of_int b \<le> (x + x / 2 ^ 53) * of_int b"
        using bpos by (intro mult_right_mono) simp_all
      also have "\<dots> = of_int a + of_int a / 2 ^ 53"
        using bpos by (simp add: x_def field_simps)
      also have "\<dots> < of_int a + 1"
        using a53 by simp
      finally have "(of_int ((n + 1) * b) :: rat) < of_int (a + 1)"
        by simp
      then have "(n + 1) * b < a + 1"
        by (simp only: of_int_less_iff)
      moreover have "a < (n + 1) * b"
      proof -
        have "a = n * b + a mod b" by (simp add: n_def)
        moreover have "a mod b < b" using b1 by simp
        ultimately show ?thesis by (simp add: algebra_simps)
      qed
      ultimately show False by simp
    qed
  next
    case False
    then have e: "e = - 1074" and L: "L + 1 \<le> - 1022" by (simp_all add: e_def)
    have "x < power_int 2 (- 1022)"
      using hi pow2_mono [OF L] by linarith
    also have "\<dots> \<le> power_int 2 (- 1)"
      by (rule pow2_mono) simp
    finally have x2: "x < 1 / 2" by simp
    have "power_int (2::rat) e \<le> power_int 2 0"
      unfolding e by (rule pow2_mono) simp
    then have "power_int (2::rat) e / 2 \<le> 1 / 2" by simp
    then have "round64 x < 1" using near x2 by linarith
    moreover have "(0::rat) \<le> of_int n"
      using a0 b1 by (simp add: n_def pos_imp_zdiv_nonneg_iff)
    ultimately show ?thesis by linarith
  qed
  have "\<lfloor>round64 x\<rfloor> = n"
    using lower upper by (simp add: floor_unique)
  then show ?thesis by (simp add: x_def n_def)
qed

subsection \<open>The policy on safe integers\<close>

lemma ceiling_of_int_quotient:
  assumes "0 < (b::int)"
  shows "\<lceil>real_of_int a / real_of_int b\<rceil> = a div b + (if a mod b \<noteq> 0 then 1 else 0)"
proof -
  have "\<lceil>real_of_int a / real_of_int b\<rceil> = - \<lfloor>real_of_int (- a) / real_of_int b\<rfloor>"
    by (simp add: ceiling_def)
  also have "\<dots> = - ((- a) div b)"
    by (simp only: floor_divide_of_int_eq)
  also have "\<dots> = a div b + (if a mod b \<noteq> 0 then 1 else 0)"
    using assms by (simp add: zdiv_zminus1_eq_if)
  finally show ?thesis .
qed

lemma pages_formula:
  assumes "1 \<le> lmt"
  shows "(\<lfloor>real_of_int ofs / real_of_int lmt\<rfloor> + 1 < \<lceil>real_of_int cnt / real_of_int lmt\<rceil>)
           = (ofs div lmt + 1 < cnt div lmt + (if cnt mod lmt \<noteq> 0 then 1 else 0))"
proof -
  have fl: "\<lfloor>real_of_int ofs / real_of_int lmt\<rfloor> = ofs div lmt"
    by (simp only: floor_divide_of_int_eq)
  have ce: "\<lceil>real_of_int cnt / real_of_int lmt\<rceil>
              = cnt div lmt + (if cnt mod lmt \<noteq> 0 then 1 else 0)"
    using assms by (intro ceiling_of_int_quotient) simp
  show ?thesis unfolding fl ce ..
qed

lemma quotient_plus_one_exact:
  assumes "0 \<le> a" and "a < 2 ^ 53" and "1 \<le> b"
  shows "round64 (of_int \<lfloor>round64 (of_int a / of_int b)\<rfloor> + 1) = of_int (a div b + 1)"
proof -
  have q: "\<lfloor>round64 (of_int a / of_int b)\<rfloor> = a div b"
    using assms by (rule floor_round64_quotient)
  have "a div b \<le> a div 1"
    using assms by (intro zdiv_mono2) simp_all
  then have hi: "a div b + 1 \<le> 2 ^ 53" using assms(2) by simp
  have lo: "0 \<le> a div b + 1"
    using assms by (simp add: pos_imp_zdiv_nonneg_iff)
  have "round64 (of_int (a div b + 1)) = of_int (a div b + 1)"
    using lo hi by (rule round64_of_int)
  then show ?thesis unfolding q by simp
qed

lemma calcHasMorePages_exact:
  assumes "0 \<le> cnt" and "cnt < 2 ^ 53" and "0 \<le> ofs" and "ofs < 2 ^ 53" and "1 \<le> lmt"
  shows "calcHasMorePages cnt lmt ofs
           = (ofs div lmt + 1 < cnt div lmt + (if cnt mod lmt \<noteq> 0 then 1 else 0))"
proof -
  have q: "\<lfloor>round64 (of_int cnt / of_int lmt)\<rfloor> = cnt div lmt"
    using assms(1,2,5) by (rule floor_round64_quotient)
  have tp: "round64 (of_int \<lfloor>round64 (of_int cnt / of_int lmt)\<rfloor> + 1) = of_int (cnt div lmt + 1)"
    using assms(1,2,5) by (rule quotient_plus_one_exact)
  have cp: "round64 (of_int \<lfloor>round64 (of_int ofs / of_int lmt)\<rfloor> + 1) = of_int (ofs div lmt + 1)"
    using assms(3,4,5) by (rule quotient_plus_one_exact)
  have rem: "cnt smod lmt = cnt mod lmt"
    using assms by (simp add: smod_mod_positive)
  have nz: "lmt \<noteq> 0" using assms(5) by simp
  show ?thesis
  proof (cases "cnt mod lmt = 0")
    case True
    have "calcHasMorePages cnt lmt ofs
            = ((of_int (ofs div lmt + 1) :: rat) < of_int (cnt div lmt))"
      unfolding calcHasMorePages_def Let_def cp rem using nz True by (simp only: q if_False if_True simp_thms)
    then show ?thesis using True by (simp only: of_int_less_iff) simp
  next
    case False
    have "calcHasMorePages cnt lmt ofs
            = ((of_int (ofs div lmt + 1) :: rat) < of_int (cnt div lmt + 1))"
      unfolding calcHasMorePages_def Let_def cp tp rem using nz False by (simp only: if_False if_True simp_thms)
    then show ?thesis using False by (simp only: of_int_less_iff) simp
  qed
qed

lemma calcHasMorePages_zero_total:
  assumes "1 \<le> lmt" and "0 \<le> ofs"
  shows "\<not> calcHasMorePages 0 lmt ofs"
proof -
  have "(0::rat) \<le> of_int ofs / of_int lmt"
    using assms by simp
  then have "0 \<le> round64 (of_int ofs / of_int lmt)"
    by (rule round64_nonneg)
  then have "(0::rat) \<le> of_int \<lfloor>round64 (of_int ofs / of_int lmt)\<rfloor> + 1"
    by simp
  then have "0 \<le> round64 (of_int \<lfloor>round64 (of_int ofs / of_int lmt)\<rfloor> + 1)"
    by (rule round64_nonneg)
  moreover have "round64 0 = 0" by (simp add: round64_def)
  ultimately show ?thesis
    using assms(1) by (simp add: calcHasMorePages_def Let_def)
qed

text \<open>
  Claim C4, amended. For a total count and an offset that are not negative and below
  \<open>2 ^ 53\<close>, and a limit of at least one, \<^verbatim>\<open>calcHasMorePages\<close> returns
  \<open>floor (offset / limit) + 1 < ceil (totalCount / limit)\<close>. In particular it returns
  false when the total count is zero, and false for every offset at or beyond the first
  offset of the last page.
\<close>

theorem calcHasMorePages_policy:
  assumes "0 \<le> cnt" and "cnt < 2 ^ 53" and "0 \<le> ofs" and "ofs < 2 ^ 53" and "1 \<le> lmt"
  shows "calcHasMorePages cnt lmt ofs =
           (\<lfloor>real_of_int ofs / real_of_int lmt\<rfloor> + 1
              < \<lceil>real_of_int cnt / real_of_int lmt\<rceil>)
         \<and> (cnt = 0 \<longrightarrow> \<not> calcHasMorePages cnt lmt ofs)
         \<and> (lmt * (\<lceil>real_of_int cnt / real_of_int lmt\<rceil> - 1) \<le> ofs
              \<longrightarrow> \<not> calcHasMorePages cnt lmt ofs)"
proof (intro conjI impI)
  show eq: "calcHasMorePages cnt lmt ofs =
           (\<lfloor>real_of_int ofs / real_of_int lmt\<rfloor> + 1
              < \<lceil>real_of_int cnt / real_of_int lmt\<rceil>)"
    unfolding pages_formula [OF assms(5)] using assms by (rule calcHasMorePages_exact)
  have fl: "\<lfloor>real_of_int ofs / real_of_int lmt\<rfloor> = ofs div lmt"
    by (simp only: floor_divide_of_int_eq)
  {
    assume "cnt = 0"
    then show "\<not> calcHasMorePages cnt lmt ofs"
      using calcHasMorePages_zero_total [OF assms(5,3)] by simp
  }
  {
    assume beyond: "lmt * (\<lceil>real_of_int cnt / real_of_int lmt\<rceil> - 1) \<le> ofs"
    define p where "p = \<lceil>real_of_int cnt / real_of_int lmt\<rceil> - 1"
    have "(lmt * p) div lmt \<le> ofs div lmt"
      using beyond assms unfolding p_def by (intro zdiv_mono1) simp_all
    moreover have "(lmt * p) div lmt = p"
      using assms by simp
    ultimately have "p \<le> ofs div lmt" by simp
    then show "\<not> calcHasMorePages cnt lmt ofs"
      unfolding eq fl p_def by simp
  }
qed

text \<open>
  Claim C4, as stated, at \<open>totalCount = 2 ^ 54\<close>, \<open>limit = 5\<close>, \<open>offset = 2 ^ 54 - 4\<close>, all
  three binary64 values: the quotient \<open>2 ^ 54 / 5\<close> rounds up to \<open>3602879701896397\<close>, so
  the code counts one page more than \<open>ceil (totalCount / limit)\<close> and returns true where
  \<open>floor (offset / limit) + 1 < ceil (totalCount / limit)\<close> is false.
\<close>

theorem calcHasMorePages_policy_counterexample:
  "round64 (2 ^ 54) = 2 ^ 54 \<and> round64 (2 ^ 54 - 4) = 2 ^ 54 - 4
   \<and> calcHasMorePages (2 ^ 54) 5 (2 ^ 54 - 4)
   \<and> \<not> (\<lfloor>real_of_int (2 ^ 54 - 4) / real_of_int 5\<rfloor> + 1
           < \<lceil>real_of_int (2 ^ 54) / real_of_int 5\<rceil>)"
proof -
  have r: "round64 (2 ^ 54) = 2 ^ 54 \<and> round64 (2 ^ 54 - 4) = 2 ^ 54 - 4"
    by code_simp
  have c: "calcHasMorePages (2 ^ 54) 5 (2 ^ 54 - 4)"
    by code_simp
  have "\<not> ((2 ^ 54 - 4) div 5 + 1 < (2 ^ 54) div 5 + (if (2 ^ 54) mod 5 \<noteq> 0 then 1 else (0::int)))"
    by simp
  then have "\<not> (\<lfloor>real_of_int (2 ^ 54 - 4) / real_of_int 5\<rfloor> + 1
           < \<lceil>real_of_int (2 ^ 54) / real_of_int 5\<rceil>)"
    using pages_formula [of 5 "2 ^ 54 - 4" "2 ^ 54"] by simp
  then show ?thesis using r c by blast
qed

theorem calcHasMorePages_policy_witness:
  "calcHasMorePages 4 2 0 \<and> \<not> calcHasMorePages 4 2 2 \<and> \<not> calcHasMorePages 0 2 0"
proof -
  have a: "(0::int) \<le> 4" and a': "(4::int) < 2 ^ 53" and z: "(0::int) \<le> 0" and z': "(0::int) < 2 ^ 53"
    and b: "(0::int) \<le> 2" and b': "(2::int) < 2 ^ 53" and c: "(1::int) \<le> 2"
    by simp_all
  have "calcHasMorePages 4 2 0"
    using calcHasMorePages_policy [OF a a' z z' c] by simp
  moreover have "\<not> calcHasMorePages 4 2 2"
    using calcHasMorePages_policy [OF a a' b b' c] by simp
  moreover have "\<not> calcHasMorePages 0 2 0"
    using calcHasMorePages_policy [OF z z' z z' c] by simp
  ultimately show ?thesis by simp
qed


section \<open>Properties of the field-projection deriver\<close>

lemma split_on_not_Nil: "split_on c s \<noteq> []"
  by (induction s) (auto split: list.splits)

lemma split_on_segment:
  "c \<notin> set k \<Longrightarrow> split_on c (k @ c # rest) = k # split_on c rest"
  by (induction k) (auto split: list.splits simp: split_on_not_Nil)

lemma split_on_dotted:
  "\<forall>k \<in> set path. CHR ''.'' \<notin> set k \<Longrightarrow> split_on (CHR ''.'') (dotted path) = path @ [[]]"
  by (induction path) (simp_all add: dotted_def split_on_segment)

lemma flattenField_root: "flattenField [] rootId leaf = rewrittenLeaf [] rootId leaf"
  by (simp add: flattenField_def rewrittenLeaf_def)

lemma flattenField_nested:
  assumes "path \<noteq> []" and "\<forall>k \<in> set path. CHR ''.'' \<notin> set k"
  shows "flattenField (dotted path) a leaf = rewrittenLeaf path rootId leaf"
proof -
  have parts: "split_on (CHR ''.'') (dotted path) = path @ [[]]"
    using assms(2) by (rule split_on_dotted)
  have len: "length (path @ [[]]) > 1" using assms(1) by (cases path) simp_all
  have key: "(path @ [[]]) ! (length (path @ [[]]) - 2) = last path"
    using assms(1) by (simp add: nth_append last_conv_nth)
  show ?thesis
    unfolding flattenField_def parts Let_def using len key assms(1)
    by (simp add: rewrittenLeaf_def)
qed

lemma getFlattenFields_projected:
  "\<lbrakk>pfx = dotted path; \<forall>k \<in> set path. CHR ''.'' \<notin> set k; dotFreeKeys t; path = [] \<longrightarrow> a = rootId\<rbrakk>
     \<Longrightarrow> getFlattenFields t pfx a = projectedFields path rootId t"
  and flattenNestedLoop_projected:
  "\<lbrakk>pfx = dotted path; \<forall>k \<in> set path. CHR ''.'' \<notin> set k; dotFreeKeysList nf\<rbrakk>
     \<Longrightarrow> flattenNestedLoop nf pfx = projectedNested path rootId nf"
proof (induction t pfx a and nf pfx arbitrary: path rootId and path rootId rule: getFlattenFields_flattenNestedLoop.induct)
  case (1 ff nf pfx rootIdFieldReplacement)
  have leafs: "map (flattenField pfx rootIdFieldReplacement) ff = map (rewrittenLeaf path rootId) ff"
  proof (cases "path = []")
    case True
    then show ?thesis using 1 by (simp add: dotted_def flattenField_root)
  next
    case False
    then show ?thesis using 1 by (simp add: flattenField_nested)
  qed
  have "flattenNestedLoop nf pfx = projectedNested path rootId nf"
    using 1 by simp
  then show ?case using leafs by simp
next
  case (2 pfx)
  then show ?case by simp
next
  case (3 key nestedField rest pfx)
  have p: "pfx @ key @ ''.'' = dotted (path @ [key])"
    using 3 by (simp add: dotted_def)
  have "getFlattenFields nestedField (pfx @ key @ ''.'') '''' = projectedFields (path @ [key]) rootId nestedField"
    using 3(3-) by (intro "3.IH"(1) p) auto
  moreover have "flattenNestedLoop rest pfx = projectedNested path rootId rest"
    using 3(3-) by (intro "3.IH"(2)) auto
  ultimately show ?case by simp
qed

text \<open>
  Claim C8. For every requested-field tree whose object keys are GraphQL names (no key
  contains a dot), the list computed by \<^verbatim>\<open>getFlattenFields\<close> from the empty prefix is
  \<open>projectedFields\<close>: a leaf inside a nested object whose name starts with the key of
  that object and ends in \<open>Id\<close> becomes the dotted prefix followed by \<open>id\<close>, a leaf at
  the root equal to the root-identity alias becomes \<open>id\<close>, and every other leaf is kept
  behind its dotted prefix.
\<close>

theorem getFlattenFields_rewrites:
  assumes "dotFreeKeys tree"
  shows "getFlattenFields tree '''' rootIdFieldReplacement
           = projectedFields [] rootIdFieldReplacement tree"
  using assms by (intro getFlattenFields_projected) (simp_all add: dotted_def)

theorem getFlattenFields_rewrites_witness:
  "dotFreeKeys fields_ex \<and>
   getFlattenFields fields_ex '''' ''noteId''
     = [''id'', ''title'', ''source.id'', ''source.name'', ''tags.tag.id'', ''tags.tag.tagName'']"
proof -
  have wf: "dotFreeKeys fields_ex"
    by (simp add: fields_ex_def)
  have "projectedFields [] ''noteId'' fields_ex
          = [''id'', ''title'', ''source.id'', ''source.name'', ''tags.tag.id'', ''tags.tag.tagName'']"
    by (simp add: fields_ex_def rewrittenLeaf_def dotted_def suffix_def)
  then show ?thesis
    using wf getFlattenFields_rewrites [OF wf, of "''noteId''"] by simp
qed

lemma precedes_iff: "precedes x y xs \<longleftrightarrow> (\<exists>us vs. xs = us @ x # vs \<and> y \<in> set vs)"
proof (induction xs)
  case Nil
  then show ?case by simp
next
  case (Cons z zs)
  show ?case
  proof
    assume "precedes x y (z # zs)"
    then consider "z = x" "y \<in> set zs" | "precedes x y zs" by auto
    then show "\<exists>us vs. z # zs = us @ x # vs \<and> y \<in> set vs"
    proof cases
      case 1
      then have "z # zs = [] @ x # zs \<and> y \<in> set zs" by simp
      then show ?thesis by blast
    next
      case 2
      then obtain us vs where "zs = us @ x # vs" "y \<in> set vs" using Cons.IH by blast
      then have "z # zs = (z # us) @ x # vs \<and> y \<in> set vs" by simp
      then show ?thesis by blast
    qed
  next
    assume "\<exists>us vs. z # zs = us @ x # vs \<and> y \<in> set vs"
    then obtain us vs where e: "z # zs = us @ x # vs" and y: "y \<in> set vs" by blast
    show "precedes x y (z # zs)"
    proof (cases us)
      case Nil
      then show ?thesis using e y by simp
    next
      case (Cons u us')
      then have "zs = us' @ x # vs" using e by simp
      then have "precedes x y zs" using y Cons.IH by blast
      then show ?thesis by simp
    qed
  qed
qed

lemma precedes_across: "x \<in> set xs \<Longrightarrow> y \<in> set ys \<Longrightarrow> precedes x y (xs @ ys)"
proof -
  assume "x \<in> set xs" and y: "y \<in> set ys"
  then obtain us vs where "xs = us @ x # vs" by (meson split_list)
  then have "xs @ ys = us @ x # (vs @ ys) \<and> y \<in> set (vs @ ys)" using y by simp
  then show ?thesis unfolding precedes_iff by blast
qed

lemma precedes_append_left: "precedes x y xs \<Longrightarrow> precedes x y (xs @ ys)"
proof -
  assume "precedes x y xs"
  then obtain us vs where "xs = us @ x # vs" "y \<in> set vs" unfolding precedes_iff by blast
  then have "xs @ ys = us @ x # (vs @ ys) \<and> y \<in> set (vs @ ys)" by simp
  then show ?thesis unfolding precedes_iff by blast
qed

lemma precedes_widen:
  assumes "precedes x y (xs @ ys)"
  shows "precedes x y (as @ xs @ b # ys)"
proof -
  from assms obtain us vs where e: "xs @ ys = us @ x # vs" and y: "y \<in> set vs"
    unfolding precedes_iff by blast
  from e consider ws where "xs = us @ x # ws" "vs = ws @ ys"
    | ws where "us = xs @ ws" "ys = ws @ x # vs"
    by (auto simp: append_eq_append_conv2 Cons_eq_append_conv append_eq_Cons_conv)
  then show ?thesis
  proof cases
    case 1
    then have "as @ xs @ b # ys = (as @ us) @ x # (ws @ b # ys) \<and> y \<in> set (ws @ b # ys)"
      using y by auto
    then show ?thesis unfolding precedes_iff by blast
  next
    case 2
    then have "as @ xs @ b # ys = (as @ xs @ b # ws) @ x # vs \<and> y \<in> set vs"
      using y by auto
    then show ?thesis unfolding precedes_iff by blast
  qed
qed

lemma allPathsList_split:
  "mset (allPathsList nf pfx) = mset (deeperPaths nf pfx) + mset (map (\<lambda>key. pfx @ key) (map fst nf))"
  by (induction nf pfx rule: deeperPaths.induct) (simp_all add: allPaths.simps(1) split: GraphQLMappedFields.splits)

lemma getAllNestedKeys_unfold:
  "getAllNestedKeys t pfx = nestedKeysLoop (nestedFields t) pfx @ map (\<lambda>key. pfx @ key) (map fst (nestedFields t))"
  by (cases t) simp

lemma mset_nested_keys:
  "mset (getAllNestedKeys t pfx) = mset (allPaths t pfx)"
  and mset_nested_loop:
  "mset (nestedKeysLoop nf pfx) = mset (deeperPaths nf pfx)"
proof (induction t pfx and nf pfx rule: getAllNestedKeys_nestedKeysLoop.induct)
  case (1 ff nf pfx)
  then show ?case by (simp add: allPathsList_split)
next
  case (2 pfx)
  then show ?case by simp
next
  case (3 key nestedField rest pfx)
  then show ?case by simp
qed

lemma child_in_nested_keys:
  "child \<in> fst ` set (nestedFields t) \<Longrightarrow> pfx @ child \<in> set (getAllNestedKeys t pfx)"
  by (cases t) auto

lemma children_before_parents:
  "\<forall>(c, p) \<in> set (childParentPairs t pfx). precedes c p (getAllNestedKeys t pfx)"
  and children_before_parents_loop:
  "\<forall>(c, p) \<in> set (childParentPairsList nf pfx).
      precedes c p (nestedKeysLoop nf pfx @ map (\<lambda>key. pfx @ key) (map fst nf))"
proof (induction t pfx and nf pfx rule: getAllNestedKeys_nestedKeysLoop.induct)
  case (1 ff nf pfx)
  then show ?case by simp
next
  case (2 pfx)
  then show ?case by simp
next
  case (3 key nestedField rest pfx)
  let ?sub = "getAllNestedKeys nestedField (pfx @ key @ ''.'')"
  let ?tail = "nestedKeysLoop rest pfx"
  let ?lvl = "map (\<lambda>key. pfx @ key) (map fst rest)"
  have out: "nestedKeysLoop ((key, nestedField) # rest) pfx
               @ map (\<lambda>key. pfx @ key) (map fst ((key, nestedField) # rest))
             = ?sub @ ?tail @ (pfx @ key) # ?lvl"
    by simp
  show ?case unfolding out
  proof (intro ballI, clarify)
    fix c p
    assume "(c, p) \<in> set (childParentPairsList ((key, nestedField) # rest) pfx)"
    then consider
        (direct) child where "child \<in> fst ` set (nestedFields nestedField)"
                  "c = pfx @ key @ ''.'' @ child" "p = pfx @ key"
      | (inner) "(c, p) \<in> set (childParentPairs nestedField (pfx @ key @ ''.''))"
      | (later) "(c, p) \<in> set (childParentPairsList rest pfx)"
      by auto
    then show "precedes c p (?sub @ ?tail @ (pfx @ key) # ?lvl)"
    proof cases
      case direct
      have "(pfx @ key @ ''.'') @ child \<in> set ?sub"
        using direct(1) by (rule child_in_nested_keys)
      then have "c \<in> set ?sub" using direct(2) by simp
      moreover have "p \<in> set (?tail @ (pfx @ key) # ?lvl)" using direct(3) by simp
      ultimately show ?thesis by (rule precedes_across)
    next
      case inner
      then have "precedes c p ?sub" using "3.IH"(1) by blast
      then show ?thesis by (rule precedes_append_left)
    next
      case later
      then have "precedes c p (?tail @ ?lvl)" using "3.IH"(2) by blast
      then show ?thesis by (rule precedes_widen)
    qed
  qed
qed

text \<open>
  Claim C9, as stated, on the tree \<open>{a: {b}, c: {d}}\<close>: the list is
  \<open>[a.b, c.d, a, c]\<close>, so the parent \<open>a\<close> does not appear before the path \<open>c.d\<close> of
  its sibling's subtree.
\<close>

theorem getAllNestedKeys_sibling_counterexample:
  "getAllNestedKeys tree_ex '''' = [''a.b'', ''c.d'', ''a'', ''c'']
   \<and> \<not> precedes ''a'' ''c.d'' (getAllNestedKeys tree_ex '''')"
  by (simp add: tree_ex_def)

text \<open>
  Claim C9, amended. The list computed by \<^verbatim>\<open>getAllNestedKeys\<close> holds exactly the keys of
  \<open>nestedFields\<close> at every depth, each behind its dotted prefix; every child path
  appears before its parent; and the keys of one object come last in that object's list,
  in key order, after the paths of all their subtrees.
\<close>

theorem getAllNestedKeys_order:
  "mset (getAllNestedKeys tree pfx) = mset (allPaths tree pfx)
   \<and> (\<forall>(c, p) \<in> set (childParentPairs tree pfx). precedes c p (getAllNestedKeys tree pfx))
   \<and> (\<exists>deeper. getAllNestedKeys tree pfx
                   = deeper @ map (\<lambda>key. pfx @ key) (map fst (nestedFields tree))
               \<and> mset deeper = mset (deeperPaths (nestedFields tree) pfx))"
proof (intro conjI)
  show "mset (getAllNestedKeys tree pfx) = mset (allPaths tree pfx)"
    by (rule mset_nested_keys)
  show "\<forall>(c, p) \<in> set (childParentPairs tree pfx). precedes c p (getAllNestedKeys tree pfx)"
    by (rule children_before_parents)
  have "getAllNestedKeys tree pfx
          = nestedKeysLoop (nestedFields tree) pfx
            @ map (\<lambda>key. pfx @ key) (map fst (nestedFields tree))
        \<and> mset (nestedKeysLoop (nestedFields tree) pfx)
            = mset (deeperPaths (nestedFields tree) pfx)"
    using getAllNestedKeys_unfold mset_nested_loop by blast
  then show "\<exists>deeper. getAllNestedKeys tree pfx
                   = deeper @ map (\<lambda>key. pfx @ key) (map fst (nestedFields tree))
               \<and> mset deeper = mset (deeperPaths (nestedFields tree) pfx)"
    by blast
qed

theorem getAllNestedKeys_order_witness:
  "(''a.b'', ''a'') \<in> set (childParentPairs tree_ex '''')
   \<and> precedes ''a.b'' ''a'' (getAllNestedKeys tree_ex '''')
   \<and> precedes ''c.d'' ''c'' (getAllNestedKeys tree_ex '''')"
proof -
  have pairs: "childParentPairs tree_ex '''' = [(''a.b'', ''a''), (''c.d'', ''c'')]"
    by (simp add: tree_ex_def)
  have "\<forall>(c, p) \<in> set (childParentPairs tree_ex ''''). precedes c p (getAllNestedKeys tree_ex '''')"
    using getAllNestedKeys_order [of tree_ex "''''"] by blast
  then show ?thesis unfolding pairs by simp
qed


section \<open>Properties of the filter composer\<close>

lemma buildFilters_keys:
  "buildFilters input =
     [(''date'', OpGteLte (fromDate input) (toDate input))]
     @ (case sourceIds input of None \<Rightarrow> [] | Some ids \<Rightarrow> [(''source'', OpIn ids)])
     @ (case languageIds input of None \<Rightarrow> [] | Some ids \<Rightarrow> [(''language'', OpIn ids)])
     @ (case tagIds input of None \<Rightarrow> []
        | Some ids \<Rightarrow> [(''tags'', OpNested ''tag'' (OpNested ''id'' (OpIn ids)))])"
  by (cases "sourceIds input"; cases "languageIds input"; cases "tagIds input")
     (simp_all add: buildFilters_def objSet_def)

lemma rowMatches_buildFilters:
  "rowMatches (buildFilters input) (n, t) \<longleftrightarrow>
     (fromDate input \<le> date n \<and> date n \<le> toDate input)
     \<and> (case sourceIds input of None \<Rightarrow> True | Some ids \<Rightarrow> source n \<in> set ids)
     \<and> (case languageIds input of None \<Rightarrow> True | Some ids \<Rightarrow> language n \<in> set ids)
     \<and> (case tagIds input of None \<Rightarrow> True
         | Some ids \<Rightarrow> (case t of None \<Rightarrow> False | Some tg \<Rightarrow> tag_id tg \<in> set ids))"
  unfolding buildFilters_keys rowMatches_def
  by (cases "sourceIds input"; cases "languageIds input"; cases "tagIds input") simp_all

lemma list_ex_joinRows:
  "list_ex P (joinRows True [n]) \<longleftrightarrow>
     (if tags n = [] then P (n, None) else (\<exists>t \<in> set (tags n). P (n, Some t)))"
  by (simp add: joinRows_def list_ex_iff)

text \<open>
  Claim C3. A note satisfies the filter composed by \<^verbatim>\<open>searchNotes\<close> if and only if its
  date lies in \<open>[fromDate, toDate]\<close>, both bounds included, and \<open>sourceIds\<close> is absent or
  holds the id of its source, and \<open>languageIds\<close> is absent or holds the id of its language,
  and \<open>tagIds\<close> is absent or holds the id of at least one of its tags.
\<close>

theorem buildFilters_conjunction:
  "noteSatisfies (buildFilters input) n \<longleftrightarrow>
     (fromDate input \<le> date n \<and> date n \<le> toDate input)
     \<and> (sourceIds input = None \<or> (\<exists>ids. sourceIds input = Some ids \<and> source n \<in> set ids))
     \<and> (languageIds input = None \<or> (\<exists>ids. languageIds input = Some ids \<and> language n \<in> set ids))
     \<and> (tagIds input = None
          \<or> (\<exists>ids. tagIds input = Some ids \<and> (\<exists>t \<in> set (tags n). tag_id t \<in> set ids)))"
proof -
  have src: "(case sourceIds input of None \<Rightarrow> True | Some ids \<Rightarrow> source n \<in> set ids)
             \<longleftrightarrow> (sourceIds input = None \<or> (\<exists>ids. sourceIds input = Some ids \<and> source n \<in> set ids))"
    by (cases "sourceIds input") simp_all
  have lng: "(case languageIds input of None \<Rightarrow> True | Some ids \<Rightarrow> language n \<in> set ids)
             \<longleftrightarrow> (languageIds input = None \<or> (\<exists>ids. languageIds input = Some ids \<and> language n \<in> set ids))"
    by (cases "languageIds input") simp_all
  show ?thesis
  proof (cases "tagIds input")
    case None
    then show ?thesis
      unfolding noteSatisfies_def list_ex_joinRows rowMatches_buildFilters src lng
      by (cases "tags n") auto
  next
    case (Some ids)
    then show ?thesis
      unfolding noteSatisfies_def list_ex_joinRows rowMatches_buildFilters src lng
      by (cases "tags n") auto
  qed
qed


section \<open>Properties of the search orchestrator\<close>

lemma foldl_noteMap_None:
  "foldl (\<lambda>m n. m(note_id n \<mapsto> n)) m0 fetched i = None
     \<longleftrightarrow> m0 i = None \<and> i \<notin> note_id ` set fetched"
  by (induction fetched arbitrary: m0) auto

lemma foldl_noteMap_Some:
  "foldl (\<lambda>m n. m(note_id n \<mapsto> n)) m0 fetched i = Some x
     \<Longrightarrow> (x \<in> set fetched \<and> note_id x = i) \<or> m0 i = Some x"
proof (induction fetched arbitrary: m0)
  case Nil
  then show ?case by simp
next
  case (Cons n fetched)
  from Cons.IH [of "m0(note_id n \<mapsto> n)"] Cons.prems
  have "(x \<in> set fetched \<and> note_id x = i) \<or> (m0(note_id n \<mapsto> n)) i = Some x"
    by simp
  then show ?case by (auto split: if_splits)
qed

lemma noteMapOf_None: "noteMapOf fetched i = None \<longleftrightarrow> i \<notin> note_id ` set fetched"
  by (simp add: noteMapOf_def foldl_noteMap_None)

lemma noteMapOf_Some: "noteMapOf fetched i = Some x \<Longrightarrow> x \<in> set fetched \<and> note_id x = i"
  using foldl_noteMap_Some [of Map.empty fetched i x] by (simp add: noteMapOf_def)

lemma noteMapOf_id:
  assumes "i \<in> note_id ` set fetched"
  shows "map_option note_id (noteMapOf fetched i) = Some i"
proof -
  from assms have "noteMapOf fetched i \<noteq> None" by (simp add: noteMapOf_None)
  then obtain x where x: "noteMapOf fetched i = Some x" by blast
  then have "note_id x = i" using noteMapOf_Some by blast
  then show ?thesis using x by simp
qed

lemma fetchNoteIds_success:
  assumes "execute st (knexCountQuery phrase filters sorters) = Inr (c # cs)"
    and "execute st (knexSelectQuery phrase filters sorters pagination) = Inr ids"
  shows "fetchNoteIdsBySearchPhrase st phrase filters sorters pagination =
           (Inr (c, ids, calcHasMorePages c (limit pagination) (offset pagination)),
            [Execute (knexCountQuery phrase filters sorters),
             Execute (knexSelectQuery phrase filters sorters pagination)])"
  using assms by (simp add: fetchNoteIdsBySearchPhrase_def Let_def)

lemma searchNotes_branchB:
  assumes "searchPhrase input = Some phrase"
    and "execute st (knexCountQuery phrase (buildFilters input) (buildSorters sortInput mf))
           = Inr (c # cs)"
    and "execute st (knexSelectQuery phrase (buildFilters input) (buildSorters sortInput mf) pagination)
           = Inr ids"
    and "getResult st (byIdsQuery (noteQueryBuilder mf (buildSorters sortInput mf)) ids) = Inr fetched"
  shows "searchNotes st mf input pagination sortInput =
           (Inr \<lparr>items = map (noteMapOf fetched) ids, totalCount = c,
                 hasNextPage = calcHasMorePages c (limit pagination) (offset pagination)\<rparr>,
            [Execute (knexCountQuery phrase (buildFilters input) (buildSorters sortInput mf)),
             Execute (knexSelectQuery phrase (buildFilters input) (buildSorters sortInput mf) pagination),
             GetResult (byIdsQuery (noteQueryBuilder mf (buildSorters sortInput mf)) ids)])"
  unfolding searchNotes_def Let_def
  using assms(1,4) fetchNoteIds_success [OF assms(2,3)] by simp

text \<open>
  Claim C1. On the branch with a search phrase, when the count statement and the id
  statement succeed and the fetch by id set returns, in any order, rows that include a
  row for every id, the identities of the returned \<open>items\<close>, in order, are exactly the
  id list of the text-match resolver.
\<close>

theorem searchNotes_id_order:
  assumes "searchPhrase input = Some phrase"
    and "execute st (knexCountQuery phrase (buildFilters input) (buildSorters sortInput mf))
           = Inr (c # cs)"
    and "execute st (knexSelectQuery phrase (buildFilters input) (buildSorters sortInput mf) pagination)
           = Inr ids"
    and "getResult st (byIdsQuery (noteQueryBuilder mf (buildSorters sortInput mf)) ids) = Inr fetched"
    and "set ids \<subseteq> note_id ` set fetched"
  shows "\<exists>env. fst (searchNotes st mf input pagination sortInput) = Inr env
               \<and> map (map_option note_id) (items env) = map Some ids"
proof -
  have "map (map_option note_id) (map (noteMapOf fetched) ids) = map Some ids"
    using assms(5) by (induction ids) (simp_all add: noteMapOf_id)
  then show ?thesis
    unfolding searchNotes_branchB [OF assms(1-4)] by simp
qed

text \<open>
  Claim C10. On the branch with a search phrase the returned \<open>items\<close> has one entry per
  id of the id list, and the entry of an id that has no row in the fetched result is the
  undefined hole (\<open>None\<close>): nothing is dropped and no error is raised.
\<close>

theorem searchNotes_holes:
  assumes "searchPhrase input = Some phrase"
    and "execute st (knexCountQuery phrase (buildFilters input) (buildSorters sortInput mf))
           = Inr (c # cs)"
    and "execute st (knexSelectQuery phrase (buildFilters input) (buildSorters sortInput mf) pagination)
           = Inr ids"
    and "getResult st (byIdsQuery (noteQueryBuilder mf (buildSorters sortInput mf)) ids) = Inr fetched"
  shows "\<exists>env. fst (searchNotes st mf input pagination sortInput) = Inr env
               \<and> length (items env) = length ids
               \<and> (\<forall>i < length ids. ids ! i \<notin> note_id ` set fetched \<longrightarrow> items env ! i = None)"
  unfolding searchNotes_branchB [OF assms(1-4)] by (simp add: noteMapOf_None)


lemma ex_sorters: "buildSorters None mf_tags = [OrderDate asc, OrderTagDisplayOrder asc]"
  by (simp add: buildSorters_def itemsRequest_def lookupNested_def mf_tags_def)

lemma ex_filters: "buildFilters input_phrase = [(''date'', OpGteLte 0 10)]"
  by (simp add: buildFilters_def input_phrase_def)

lemma ex_count:
  "execute (sqlStorage anyMatch db_ties)
     (knexCountQuery ''ban'' [(''date'', OpGteLte 0 10)] [OrderDate asc, OrderTagDisplayOrder asc])
   = Inr [2]"
  by code_simp

lemma ex_ids:
  "execute (sqlStorage anyMatch db_ties)
     (knexSelectQuery ''ban'' [(''date'', OpGteLte 0 10)] [OrderDate asc, OrderTagDisplayOrder asc] pg_ex)
   = Inr [2, 1]"
  by code_simp

lemma ex_fetch:
  "getResult (sqlStorage anyMatch db_ties)
     (byIdsQuery (noteQueryBuilder mf_tags [OrderDate asc, OrderTagDisplayOrder asc]) [2, 1])
   = Inr [noteB 1,
          noteA 9]"
  by code_simp


lemma ex_phrase: "searchPhrase input_phrase = Some ''ban''"
  by (simp add: input_phrase_def)

theorem searchNotes_id_order_witness:
  "\<exists>env. fst (searchNotes (reversedFetch (sqlStorage anyMatch db_ties)) mf_tags input_phrase pg_ex None)
             = Inr env
         \<and> map (map_option note_id) (items env) = map Some [2, 1]"
proof -
  let ?st = "reversedFetch (sqlStorage anyMatch db_ties)"
  let ?fetched = "[noteA 9,
                   noteB 1]"
  have c: "execute ?st (knexCountQuery ''ban'' (buildFilters input_phrase) (buildSorters None mf_tags))
             = Inr (2 # [])"
    unfolding ex_sorters ex_filters using ex_count by (simp add: reversedFetch_def)
  have i: "execute ?st (knexSelectQuery ''ban'' (buildFilters input_phrase) (buildSorters None mf_tags) pg_ex)
             = Inr [2, 1]"
    unfolding ex_sorters ex_filters using ex_ids by (simp add: reversedFetch_def)
  have f: "getResult ?st (byIdsQuery (noteQueryBuilder mf_tags (buildSorters None mf_tags)) [2, 1])
             = Inr ?fetched"
    unfolding ex_sorters using ex_fetch by (simp add: reversedFetch_def)
  have s: "set [2, 1] \<subseteq> note_id ` set ?fetched"
    by (simp add: mkNote_def noteA_def noteB_def)
  show ?thesis
    using searchNotes_id_order [OF ex_phrase c i f s] .
qed

theorem searchNotes_holes_witness:
  "\<exists>env. fst (searchNotes (withoutRow 1 (sqlStorage anyMatch db_ties)) mf_tags input_phrase pg_ex None)
             = Inr env
         \<and> length (items env) = 2 \<and> items env ! 1 = None"
proof -
  let ?st = "withoutRow 1 (sqlStorage anyMatch db_ties)"
  let ?fetched = "[noteB 1]"
  have c: "execute ?st (knexCountQuery ''ban'' (buildFilters input_phrase) (buildSorters None mf_tags))
             = Inr (2 # [])"
    unfolding ex_sorters ex_filters using ex_count by (simp add: withoutRow_def)
  have i: "execute ?st (knexSelectQuery ''ban'' (buildFilters input_phrase) (buildSorters None mf_tags) pg_ex)
             = Inr [2, 1]"
    unfolding ex_sorters ex_filters using ex_ids by (simp add: withoutRow_def)
  have f: "getResult ?st (byIdsQuery (noteQueryBuilder mf_tags (buildSorters None mf_tags)) [2, 1])
             = Inr ?fetched"
    unfolding ex_sorters using ex_fetch by (simp add: withoutRow_def mkNote_def noteA_def noteB_def)
  have missing: "[2, 1] ! 1 \<notin> note_id ` set ?fetched"
    by (simp add: mkNote_def noteA_def noteB_def)
  from searchNotes_holes [OF ex_phrase c i f]
  obtain env where env: "fst (searchNotes ?st mf_tags input_phrase pg_ex None) = Inr env"
    and len: "length (items env) = length [2, 1 :: int]"
    and holes: "\<forall>i < length [2, 1 :: int]. [2, 1] ! i \<notin> note_id ` set ?fetched \<longrightarrow> items env ! i = None"
    by blast
  have "items env ! 1 = None"
    using holes missing by simp
  then show ?thesis using env len by simp
qed

text \<open>
  Claim C6, as stated, on a store of two matching notes with \<open>limit = 10\<close> and
  \<open>offset = 10\<close>: the id list is empty, yet the fetch by id set is issued as the third
  statement and the envelope carries \<open>totalCount = 2\<close>.
\<close>

theorem searchNotes_empty_ids_counterexample:
  "searchNotes (sqlStorage anyMatch db_ties) mf_tags input_phrase pg_beyond None =
     (Inr \<lparr>items = [], totalCount = 2, hasNextPage = False\<rparr>,
      [Execute (knexCountQuery ''ban'' [(''date'', OpGteLte 0 10)] [OrderDate asc, OrderTagDisplayOrder asc]),
       Execute (knexSelectQuery ''ban'' [(''date'', OpGteLte 0 10)] [OrderDate asc, OrderTagDisplayOrder asc] pg_beyond),
       GetResult (byIdsQuery (noteQueryBuilder mf_tags [OrderDate asc, OrderTagDisplayOrder asc]) [])])"
proof -
  have c: "execute (sqlStorage anyMatch db_ties)
             (knexCountQuery ''ban'' (buildFilters input_phrase) (buildSorters None mf_tags))
           = Inr (2 # [])"
    unfolding ex_sorters ex_filters using ex_count by simp
  have i: "execute (sqlStorage anyMatch db_ties)
             (knexSelectQuery ''ban'' (buildFilters input_phrase) (buildSorters None mf_tags) pg_beyond)
           = Inr []"
    unfolding ex_sorters ex_filters by code_simp
  have f: "getResult (sqlStorage anyMatch db_ties)
             (byIdsQuery (noteQueryBuilder mf_tags (buildSorters None mf_tags)) []) = Inr []"
    unfolding ex_sorters by code_simp
  have h: "calcHasMorePages 2 (limit pg_beyond) (offset pg_beyond) = False"
    by code_simp
  show ?thesis
    unfolding searchNotes_branchB [OF ex_phrase c i f] h
    by (simp add: ex_sorters ex_filters)
qed

text \<open>
  Claim C6, amended. On the branch with a search phrase, when the text-match resolver
  returns an empty id list, the fetch by id set is still issued, with the empty id set,
  and the call returns \<open>items = []\<close> together with the total count and the next-page flag
  of the resolver; when that count is zero and the pagination is valid, the envelope is
  \<open>items = []\<close>, \<open>totalCount = 0\<close>, \<open>hasNextPage = false\<close>.
\<close>

theorem searchNotes_empty_ids:
  assumes "searchPhrase input = Some phrase"
    and "execute st (knexCountQuery phrase (buildFilters input) (buildSorters sortInput mf))
           = Inr (c # cs)"
    and "execute st (knexSelectQuery phrase (buildFilters input) (buildSorters sortInput mf) pagination)
           = Inr []"
    and "getResult st (byIdsQuery (noteQueryBuilder mf (buildSorters sortInput mf)) []) = Inr fetched"
  shows "searchNotes st mf input pagination sortInput =
           (Inr \<lparr>items = [], totalCount = c,
                 hasNextPage = calcHasMorePages c (limit pagination) (offset pagination)\<rparr>,
            [Execute (knexCountQuery phrase (buildFilters input) (buildSorters sortInput mf)),
             Execute (knexSelectQuery phrase (buildFilters input) (buildSorters sortInput mf) pagination),
             GetResult (byIdsQuery (noteQueryBuilder mf (buildSorters sortInput mf)) [])])
         \<and> (c = 0 \<and> 1 \<le> limit pagination \<and> 0 \<le> offset pagination \<longrightarrow>
              fst (searchNotes st mf input pagination sortInput)
                = Inr \<lparr>items = [], totalCount = 0, hasNextPage = False\<rparr>)"
proof -
  have zero: "calcHasMorePages 0 (limit pagination) (offset pagination) = False"
    if "1 \<le> limit pagination" "0 \<le> offset pagination"
    using calcHasMorePages_zero_total [OF that] by simp
  show ?thesis
    unfolding searchNotes_branchB [OF assms] using zero by auto
qed

theorem searchNotes_empty_ids_witness:
  "fst (searchNotes (sqlStorage anyMatch []) mf_tags input_phrase pg_ex None)
     = Inr \<lparr>items = [], totalCount = 0, hasNextPage = False\<rparr>
   \<and> length (snd (searchNotes (sqlStorage anyMatch []) mf_tags input_phrase pg_ex None)) = 3"
proof -
  have c: "execute (sqlStorage anyMatch [])
             (knexCountQuery ''ban'' (buildFilters input_phrase) (buildSorters None mf_tags))
           = Inr (0 # [])"
    unfolding ex_sorters ex_filters by code_simp
  have i: "execute (sqlStorage anyMatch [])
             (knexSelectQuery ''ban'' (buildFilters input_phrase) (buildSorters None mf_tags) pg_ex)
           = Inr []"
    unfolding ex_sorters ex_filters by code_simp
  have f: "getResult (sqlStorage anyMatch [])
             (byIdsQuery (noteQueryBuilder mf_tags (buildSorters None mf_tags)) []) = Inr []"
    unfolding ex_sorters by code_simp
  have p: "(0::int) = 0 \<and> 1 \<le> limit pg_ex \<and> 0 \<le> offset pg_ex"
    by (simp add: pg_ex_def)
  note r = searchNotes_empty_ids [OF ex_phrase c i f]
  from r p have env: "fst (searchNotes (sqlStorage anyMatch []) mf_tags input_phrase pg_ex None)
                        = Inr \<lparr>items = [], totalCount = 0, hasNextPage = False\<rparr>"
    by blast
  from r have "length (snd (searchNotes (sqlStorage anyMatch []) mf_tags input_phrase pg_ex None)) = 3"
    by simp
  then show ?thesis using env by blast
qed


subsection \<open>The reference storage fetches a row for every id\<close>

text \<open>
  On the reference storage the id statement and the fetch by id set read the same store,
  so the fetch holds a row for every id of the id list, and the identities of \<open>items\<close>
  are the id list for every store, text match and request with a search phrase.
\<close>

lemma set_sortByTerm: "set (sortByTerm ord rows) = set rows"
  by (cases "orderDir ord") (simp_all add: sortByTerm_def)

lemma set_orderRows: "set (orderRows sorters rows) = set rows"
  by (induction sorters) (simp_all add: orderRows_def set_sortByTerm)

lemma fst_noteRows:
  "fst ` set (if tags n = [] then [(n, None)] else map (\<lambda>t. (n, Some t)) (tags n)) = {n}"
  by (cases "tags n") (auto simp: image_image)

lemma fst_joinRows: "fst ` set (joinRows withTags db) = set db"
proof (cases withTags)
  case True
  have "fst ` set (concat (map (\<lambda>n. if tags n = [] then [(n, None)]
                              else map (\<lambda>t. (n, Some t)) (tags n)) db)) = set db"
  proof (induction db)
    case Nil
    then show ?case by simp
  next
    case (Cons n db)
    then show ?case using fst_noteRows [of n] by (simp add: image_Un)
  qed
  then show ?thesis using True by (simp add: joinRows_def)
next
  case False
  then show ?thesis by (simp add: joinRows_def image_image)
qed

lemma set_page: "set (page skip cnt xs) \<subseteq> set xs"
proof -
  have "set (take k (drop j xs)) \<subseteq> set xs" for j k
    by (meson set_drop_subset set_take_subset subset_trans)
  then show ?thesis
    by (cases skip; cases cnt) (simp_all add: page_def set_drop_subset set_take_subset)
qed

lemma selectRows_notes: "fst ` set (selectRows fts db qb raw) \<subseteq> set db"
proof -
  have "set (selectRows fts db qb raw) \<subseteq> set (joinRows (needsTagJoin qb) db)"
    by (simp add: selectRows_def set_orderRows)
  then have "fst ` set (selectRows fts db qb raw) \<subseteq> fst ` set (joinRows (needsTagJoin qb) db)"
    by (rule image_mono)
  then show ?thesis by (simp only: fst_joinRows)
qed


lemma rowMatches_id: "rowMatches [(''id'', OpIn ids)] r \<longleftrightarrow> note_id (fst r) \<in> set ids"
  by (cases r) (simp add: rowMatches_def)

lemma sqlStorage_ids_in_store:
  assumes "execute (sqlStorage fts db) (knexSelectQuery phrase filters sorters pagination) = Inr ids"
  shows "set ids \<subseteq> note_id ` set db"
proof -
  let ?rows = "selectRows fts db (innerQb filters sorters) (Some (matchClause phrase))"
  let ?page = "page (Some (offset pagination)) (Some (limit pagination)) ?rows"
  have "ids = map (\<lambda>r. note_id (fst r)) ?page"
    using assms by (simp add: sqlStorage_def knexSelectQuery_def Let_def)
  then have "set ids = note_id ` fst ` set ?page"
    by (simp add: image_image)
  also have "\<dots> \<subseteq> note_id ` fst ` set ?rows"
    by (intro image_mono set_page)
  also have "\<dots> \<subseteq> note_id ` set db"
    by (intro image_mono selectRows_notes)
  finally show ?thesis .
qed

lemma set_entitiesOf: "set (entitiesOf rows) = fst ` set rows"
  by (simp add: entitiesOf_def)

lemma note_id_hydrate: "note_id ` set (hydrate qb rows) = note_id ` fst ` set rows"
proof -
  have "note_id (if tagsSelected qb then n\<lparr>tags := tagsOf n rows\<rparr> else n) = note_id n" for n
    by simp
  then have "note_id ` set (hydrate qb rows) = note_id ` set (entitiesOf rows)"
    by (simp add: hydrate_def image_image)
  then show ?thesis by (simp only: set_entitiesOf)
qed

lemma sqlStorage_fetch_by_ids:
  assumes "getResult (sqlStorage fts db) (byIdsQuery qb ids) = Inr fetched"
    and "qb_offset qb = None" and "qb_limit qb = None"
  shows "note_id ` set fetched = {i \<in> note_id ` set db. i \<in> set ids}"
proof -
  let ?q = "byIdsQuery qb ids"
  let ?joined = "joinRows (needsTagJoin ?q) db"
  have f: "fetched = hydrate ?q (selectRows fts db ?q None)"
    using assms by (simp add: sqlStorage_def byIdsQuery_def page_def)
  have "set (selectRows fts db ?q None) = {r \<in> set ?joined. note_id (fst r) \<in> set ids}"
    by (simp add: selectRows_def set_orderRows byIdsQuery_def rowMatches_id)
  then have "note_id ` set fetched
               = note_id ` fst ` {r \<in> set ?joined. note_id (fst r) \<in> set ids}"
    unfolding f by (simp only: note_id_hydrate)
  also have "\<dots> = {i \<in> note_id ` fst ` set ?joined. i \<in> set ids}"
    by force
  finally show ?thesis by (simp only: fst_joinRows)
qed

lemma noteQueryBuilder_page: "qb_offset (noteQueryBuilder mf sorters) = None \<and> qb_limit (noteQueryBuilder mf sorters) = None"
  by (simp add: noteQueryBuilder_def Let_def createQueryBuilder_def leftJoinAndSelect_def)

lemma sqlStorage_fetch_complete:
  assumes "execute (sqlStorage fts db) (knexSelectQuery phrase filters sorters pagination) = Inr ids"
    and "getResult (sqlStorage fts db) (byIdsQuery (noteQueryBuilder mf sorters) ids) = Inr fetched"
  shows "set ids \<subseteq> note_id ` set fetched"
proof
  fix i assume i: "i \<in> set ids"
  then have "i \<in> note_id ` set db"
    using sqlStorage_ids_in_store [OF assms(1)] by auto
  moreover have "note_id ` set fetched = {i \<in> note_id ` set db. i \<in> set ids}"
    using assms(2) noteQueryBuilder_page by (intro sqlStorage_fetch_by_ids) auto
  ultimately show "i \<in> note_id ` set fetched" using i by simp
qed

lemma sqlStorage_execute_count:
  "\<exists>c. execute (sqlStorage fts db) (knexCountQuery phrase filters sorters) = Inr (c # [])"
  by (simp add: sqlStorage_def knexCountQuery_def Let_def)

lemma sqlStorage_execute_select:
  "\<exists>ids. execute (sqlStorage fts db) (knexSelectQuery phrase filters sorters pagination) = Inr ids"
  by (simp add: sqlStorage_def knexSelectQuery_def Let_def)

lemma sqlStorage_getResult: "\<exists>fetched. getResult (sqlStorage fts db) q = Inr fetched"
  by (simp add: sqlStorage_def)

lemma searchNotes_sqlStorage_id_order:
  assumes "searchPhrase input = Some phrase"
  shows "\<exists>env ids. fst (searchNotes (sqlStorage fts db) mf input pagination sortInput) = Inr env
           \<and> execute (sqlStorage fts db)
                (knexSelectQuery phrase (buildFilters input) (buildSorters sortInput mf) pagination)
              = Inr ids
           \<and> map (map_option note_id) (items env) = map Some ids"
proof -
  let ?st = "sqlStorage fts db"
  obtain c where c: "execute ?st (knexCountQuery phrase (buildFilters input) (buildSorters sortInput mf))
                       = Inr (c # [])"
    using sqlStorage_execute_count by blast
  obtain ids where i: "execute ?st (knexSelectQuery phrase (buildFilters input)
                         (buildSorters sortInput mf) pagination) = Inr ids"
    using sqlStorage_execute_select by blast
  obtain fetched where f: "getResult ?st (byIdsQuery (noteQueryBuilder mf (buildSorters sortInput mf)) ids)
                             = Inr fetched"
    using sqlStorage_getResult by blast
  have "set ids \<subseteq> note_id ` set fetched"
    using i f by (rule sqlStorage_fetch_complete)
  then have "map (map_option note_id) (map (noteMapOf fetched) ids) = map Some ids"
    by (induction ids) (simp_all add: noteMapOf_id)
  then show ?thesis
    using i unfolding searchNotes_branchB [OF assms c i f] by simp
qed


section \<open>Text-match resolver\<close>

text \<open>
  Claim C2. When both statements succeed, \<^verbatim>\<open>fetchNoteIdsBySearchPhrase\<close> issues exactly
  two statements over the same filter, text-index join, match clause and ordering: a
  distinct count of \<open>note_id\<close> without limit and offset, whose first row is the total
  match count, and a selection of \<open>note_id\<close> with the limit and offset of the pagination
  request, whose rows are the id list (at most \<open>limit\<close> of them on a storage that honours
  the limit); the next-page flag is \<^verbatim>\<open>calcHasMorePages\<close> of that count, the limit and
  the offset.
\<close>

theorem fetchNoteIds_two_queries:
  assumes "execute st (knexCountQuery phrase filters sorters) = Inr (c # cs)"
    and "execute st (knexSelectQuery phrase filters sorters pagination) = Inr ids"
  shows "fetchNoteIdsBySearchPhrase st phrase filters sorters pagination =
           (Inr (c, ids, calcHasMorePages c (limit pagination) (offset pagination)),
            [Execute (knexCountQuery phrase filters sorters),
             Execute (knexSelectQuery phrase filters sorters pagination)])
         \<and> kq_from (knexCountQuery phrase filters sorters)
             = kq_from (knexSelectQuery phrase filters sorters pagination)
         \<and> qb_where (kq_from (knexCountQuery phrase filters sorters)) = Some filters
         \<and> qb_orderBy (kq_from (knexCountQuery phrase filters sorters)) = sorters
         \<and> kq_innerJoin (knexCountQuery phrase filters sorters)
             = kq_innerJoin (knexSelectQuery phrase filters sorters pagination)
         \<and> kq_whereRaw (knexCountQuery phrase filters sorters)
             = kq_whereRaw (knexSelectQuery phrase filters sorters pagination)
         \<and> kq_projection (knexCountQuery phrase filters sorters) = CountDistinct ''note_id''
         \<and> kq_limit (knexCountQuery phrase filters sorters) = None
         \<and> kq_offset (knexCountQuery phrase filters sorters) = None
         \<and> kq_projection (knexSelectQuery phrase filters sorters pagination)
             = SelectColumns [''note_id'']
         \<and> kq_limit (knexSelectQuery phrase filters sorters pagination) = Some (limit pagination)
         \<and> kq_offset (knexSelectQuery phrase filters sorters pagination) = Some (offset pagination)
         \<and> (honoursLimit st \<and> 0 \<le> limit pagination \<longrightarrow> int (length ids) \<le> limit pagination)"
proof -
  have bound: "int (length ids) \<le> limit pagination"
    if "honoursLimit st" and "0 \<le> limit pagination"
  proof -
    have "kq_projection (knexSelectQuery phrase filters sorters pagination) = SelectColumns [''note_id'']"
      and "kq_limit (knexSelectQuery phrase filters sorters pagination) = Some (limit pagination)"
      by (simp_all add: knexSelectQuery_def)
    then show ?thesis
      using that assms(2) unfolding honoursLimit_def by blast
  qed
  have queries: "kq_from (knexCountQuery phrase filters sorters)
             = kq_from (knexSelectQuery phrase filters sorters pagination)
         \<and> qb_where (kq_from (knexCountQuery phrase filters sorters)) = Some filters
         \<and> qb_orderBy (kq_from (knexCountQuery phrase filters sorters)) = sorters
         \<and> kq_innerJoin (knexCountQuery phrase filters sorters)
             = kq_innerJoin (knexSelectQuery phrase filters sorters pagination)
         \<and> kq_whereRaw (knexCountQuery phrase filters sorters)
             = kq_whereRaw (knexSelectQuery phrase filters sorters pagination)
         \<and> kq_projection (knexCountQuery phrase filters sorters) = CountDistinct ''note_id''
         \<and> kq_limit (knexCountQuery phrase filters sorters) = None
         \<and> kq_offset (knexCountQuery phrase filters sorters) = None
         \<and> kq_projection (knexSelectQuery phrase filters sorters pagination)
             = SelectColumns [''note_id'']
         \<and> kq_limit (knexSelectQuery phrase filters sorters pagination) = Some (limit pagination)
         \<and> kq_offset (knexSelectQuery phrase filters sorters pagination) = Some (offset pagination)"
    by (simp add: knexCountQuery_def knexSelectQuery_def innerQb_def createQueryBuilder_def)
  show ?thesis
    using fetchNoteIds_success [OF assms] queries bound by blast
qed

lemma length_page_limit: "0 \<le> l \<Longrightarrow> int (length (page skip (Some l) xs)) \<le> l"
  by (simp add: page_def Let_def split: option.splits)

lemma sqlStorage_honoursLimit: "honoursLimit (sqlStorage fts db)"
  unfolding honoursLimit_def
proof (intro allI impI)
  fix q cols l fetched
  assume p: "kq_projection q = SelectColumns cols" and l: "kq_limit q = Some l" and n: "0 \<le> l"
    and e: "execute (sqlStorage fts db) q = Inr fetched"
  from e p l have "fetched = map (\<lambda>r. note_id (fst r))
      (page (kq_offset q) (Some l) (selectRows fts db (kq_from q) (Some (kq_whereRaw q))))"
    by (simp add: sqlStorage_def Let_def)
  then show "int (length fetched) \<le> l"
    using length_page_limit [OF n] by simp
qed

theorem fetchNoteIds_two_queries_witness:
  "fetchNoteIdsBySearchPhrase (sqlStorage anyMatch db_ties) ''ban''
       [(''date'', OpGteLte 0 10)] [OrderDate asc, OrderTagDisplayOrder asc] pg_ex
     = (Inr (2, [2, 1], False),
        [Execute (knexCountQuery ''ban'' [(''date'', OpGteLte 0 10)] [OrderDate asc, OrderTagDisplayOrder asc]),
         Execute (knexSelectQuery ''ban'' [(''date'', OpGteLte 0 10)] [OrderDate asc, OrderTagDisplayOrder asc] pg_ex)])
   \<and> int (length [2, 1 :: int]) \<le> limit pg_ex"
proof -
  have c: "execute (sqlStorage anyMatch db_ties)
     (knexCountQuery ''ban'' [(''date'', OpGteLte 0 10)] [OrderDate asc, OrderTagDisplayOrder asc])
   = Inr (2 # [])"
    using ex_count by simp
  have h: "honoursLimit (sqlStorage anyMatch db_ties) \<and> 0 \<le> limit pg_ex"
    using sqlStorage_honoursLimit by (simp add: pg_ex_def)
  have m: "calcHasMorePages 2 (limit pg_ex) (offset pg_ex) = False"
    by code_simp
  note r = fetchNoteIds_two_queries [OF c ex_ids]
  from r h have "int (length [2, 1 :: int]) \<le> limit pg_ex" by blast
  moreover from r have "fetchNoteIdsBySearchPhrase (sqlStorage anyMatch db_ties) ''ban''
       [(''date'', OpGteLte 0 10)] [OrderDate asc, OrderTagDisplayOrder asc] pg_ex
     = (Inr (2, [2, 1], calcHasMorePages 2 (limit pg_ex) (offset pg_ex)),
        [Execute (knexCountQuery ''ban'' [(''date'', OpGteLte 0 10)] [OrderDate asc, OrderTagDisplayOrder asc]),
         Execute (knexSelectQuery ''ban'' [(''date'', OpGteLte 0 10)] [OrderDate asc, OrderTagDisplayOrder asc] pg_ex)])"
    by blast
  ultimately show ?thesis unfolding m by blast
qed

section \<open>Default ordering\<close>




subsection \<open>Nested tag lists on the reference storage\<close>















theorem buildFilters_conjunction_witness:
  "noteSatisfies (buildFilters input_filters) (mkNote 1 5 1 1 [\<lparr>tag_id = 2, displayOrder = 1\<rparr>])
   \<and> \<not> noteSatisfies (buildFilters input_filters) (mkNote 1 5 3 1 [\<lparr>tag_id = 2, displayOrder = 1\<rparr>])
   \<and> \<not> noteSatisfies (buildFilters input_filters) (mkNote 1 5 1 1 [\<lparr>tag_id = 4, displayOrder = 1\<rparr>])"
  using buildFilters_conjunction [of input_filters "mkNote 1 5 1 1 [\<lparr>tag_id = 2, displayOrder = 1\<rparr>]"]
        buildFilters_conjunction [of input_filters "mkNote 1 5 3 1 [\<lparr>tag_id = 2, displayOrder = 1\<rparr>]"]
        buildFilters_conjunction [of input_filters "mkNote 1 5 1 1 [\<lparr>tag_id = 4, displayOrder = 1\<rparr>]"]
  by (simp add: input_filters_def mkNote_def)

section \<open>Match clause\<close>

text \<open>
  Claim C5 at the phrases \<open>ban" OR "x\<close> and \<open>ban' OR 1=1 --\<close>. The match clause holds the
  phrase as it was given. For the phrase \<open>ban\<close> the quoted term after \<open>title:\<close> is the
  phrase; for the first phrase it ends after \<open>ban\<close> and the rest of the phrase continues
  the match query; for the second the SQL string literal ends inside the phrase and the
  rest of the phrase continues the statement.
\<close>

theorem matchClause_unescaped:
  "quotedLiteral (CHR 0x22) (titleOperand (matchClause ''ban''))
     = Some (''ban'', '' * OR body:'' @ [CHR 0x22] @ ''ban'' @ [CHR 0x22] @ '' * '' @ [CHR 0x27])
   \<and> quotedLiteral (CHR 0x22) (titleOperand (matchClause phrase_dq))
     = Some (''ban'', '' OR '' @ [CHR 0x22] @ ''x'' @ [CHR 0x22] @ '' * OR body:''
                      @ [CHR 0x22] @ phrase_dq @ [CHR 0x22] @ '' * '' @ [CHR 0x27])
   \<and> quotedLiteral (CHR 0x27) (matchLiteral (matchClause phrase_sq))
     = Some (''title:'' @ [CHR 0x22] @ ''ban'',
             '' OR 1=1 --'' @ [CHR 0x22] @ '' * OR body:''
               @ [CHR 0x22] @ phrase_sq @ [CHR 0x22] @ '' * '' @ [CHR 0x27])"
  by (simp add: matchClause_def titleOperand_def matchLiteral_def phrase_dq_def phrase_sq_def)

end
